theory Spec2Isabelle
  imports Complex_Main "HOL-Library.Log_Nat" "HOL-Library.Sublist"
begin

section \<open>JavaScript values\<close>

text \<open>
  The component \<^verbatim>\<open>AIUpscalerApp\<close> of
  \<^verbatim>\<open>src/ai_upscaler_website_react_single_file.jsx\<close> receives parsed JSON from its
  backend and tests it with JavaScript truthiness, property access and \<^verbatim>\<open>===\<close>.
  \<open>jsval\<close> is the part of the JavaScript value universe those tests can see. An object
  is the list of its own properties; a number is given by the value of the double that
  \<^verbatim>\<open>JSON.parse\<close> yields.
\<close>

datatype jsval =
    Undefined
  | Null
  | Bool bool
  | Num rat
  | Str string
  | Arr "jsval list"
  | Obj "(string \<times> jsval) list"

text \<open>\<^verbatim>\<open>if (v)\<close>, \<^verbatim>\<open>v || d\<close>: ToBoolean.\<close>

fun truthy :: "jsval \<Rightarrow> bool" where
  "truthy Undefined = False"
| "truthy Null = False"
| "truthy (Bool b) = b"
| "truthy (Num n) = (n \<noteq> 0)"
| "truthy (Str s) = (s \<noteq> [])"
| "truthy (Arr _) = True"
| "truthy (Obj _) = True"

text \<open>\<^verbatim>\<open>v ?? d\<close> and the TypeError of a property read test for null and undefined.\<close>

fun nullish :: "jsval \<Rightarrow> bool" where
  "nullish Undefined = True"
| "nullish Null = True"
| "nullish _ = False"

text \<open>
  \<^verbatim>\<open>v.k\<close> for a value that is not nullish, for the property names the component reads
  (\<^verbatim>\<open>jobId\<close>, \<^verbatim>\<open>resultUrl\<close>, \<^verbatim>\<open>status\<close>, \<^verbatim>\<open>progress\<close>, \<^verbatim>\<open>error\<close>): an object
  yields its own property or \<^verbatim>\<open>undefined\<close>, every primitive and array yields
  \<^verbatim>\<open>undefined\<close>.
\<close>

fun field :: "jsval \<Rightarrow> string \<Rightarrow> jsval" where
  "field (Obj kvs) k = (case map_of kvs k of Some v \<Rightarrow> v | None \<Rightarrow> Undefined)"
| "field _ k = Undefined"

text \<open>
  Arrays and objects are compared by identity (\<^verbatim>\<open>Object.is\<close>), every other value
  by what it is.
\<close>

fun primitive :: "jsval \<Rightarrow> bool" where
  "primitive (Arr _) = False"
| "primitive (Obj _) = False"
| "primitive _ = True"

text \<open>
  What React accepts as a child of an element: every primitive (strings and numbers are
  shown, the others show nothing) and arrays of such; an object makes the render throw.
\<close>

fun renderable :: "jsval \<Rightarrow> bool" where
  "renderable (Obj _) = False"
| "renderable (Arr vs) = list_all renderable vs"
| "renderable _ = True"

text \<open>\<^verbatim>\<open>a || b\<close> and \<^verbatim>\<open>a ?? b\<close>.\<close>

definition js_or :: "jsval \<Rightarrow> jsval \<Rightarrow> jsval" where
  "js_or a b = (if truthy a then a else b)"

definition js_coalesce :: "jsval \<Rightarrow> jsval \<Rightarrow> jsval" where
  "js_coalesce a b = (if nullish a then b else a)"

text \<open>Decimal rendering of a status code inside a template string.\<close>

fun digit_char :: "nat \<Rightarrow> char" where
  "digit_char n = char_of (48 + n)"

fun dec :: "nat \<Rightarrow> string" where
  "dec n = (if n < 10 then [digit_char n] else dec (n div 10) @ [digit_char (n mod 10)])"

declare dec.simps [simp del]

section \<open>Numbers of the progress computation\<close>

text \<open>
  A JavaScript Number is an IEEE 754 double. \<open>jsnum\<close> holds the values the progress
  computation can produce from two non-negative byte counts: a finite value (a rational
  that is a double), \<^verbatim>\<open>Infinity\<close> and \<^verbatim>\<open>NaN\<close>.
\<close>

datatype jsnum = Fin rat | PInf | NaN

text \<open>Two to an integer power.\<close>

definition pow2 :: "int \<Rightarrow> rat" where
  "pow2 k = (if 0 \<le> k then 2 ^ nat k else 1 / 2 ^ nat (- k))"

text \<open>
  The binary exponent of a positive rational \<open>q\<close>: the \<open>e\<close> with
  \<open>2^e \<le> q < 2^(e+1)\<close>, read off the bit length of \<open>\<lfloor>q\<rfloor>\<close> when \<open>q \<ge> 1\<close> and
  of \<open>\<lceil>1/q\<rceil> - 1\<close> otherwise.
\<close>

definition expo :: "rat \<Rightarrow> int" where
  "expo q =
     (if 1 \<le> q then int (floorlog 2 (nat \<lfloor>q\<rfloor>)) - 1
      else - int (floorlog 2 (nat \<lceil>1 / q\<rceil> - 1)))"

text \<open>Rounding to the nearest integer, ties to the even one.\<close>

definition round_half_even :: "rat \<Rightarrow> int" where
  "round_half_even m =
     (let f = \<lfloor>m\<rfloor>; d = m - of_int f
      in if d < 1 / 2 then f
         else if 1 / 2 < d then f + 1
         else if even f then f else f + 1)"

text \<open>
  \<open>fl q\<close> is the double nearest to \<open>q \<ge> 0\<close> (53 significant bits, round to nearest,
  ties to even). Overflow and subnormal results do not arise for the quotients and
  products formed from 64-bit byte counts, so the exponent range is left unbounded.
\<close>

definition fl :: "rat \<Rightarrow> rat" where
  "fl q =
     (if q \<le> 0 then 0
      else let e = expo q
           in of_int (round_half_even (q * pow2 (52 - e))) * pow2 (e - 52))"

text \<open>\<^verbatim>\<open>ev.loaded / ev.total\<close> on byte counts (converted to Number first).\<close>

definition js_div :: "nat \<Rightarrow> nat \<Rightarrow> jsnum" where
  "js_div a b =
     (if fl (of_nat b) = 0 then (if fl (of_nat a) = 0 then NaN else PInf)
      else Fin (fl (fl (of_nat a) / fl (of_nat b))))"

text \<open>\<^verbatim>\<open>x * 100\<close> for \<open>x \<ge> 0\<close>.\<close>

fun js_times100 :: "jsnum \<Rightarrow> jsnum" where
  "js_times100 (Fin q) = Fin (fl (q * 100))"
| "js_times100 PInf = PInf"
| "js_times100 NaN = NaN"

text \<open>
  \<^verbatim>\<open>Math.round\<close>: the nearest integer, a tie going to the larger one; \<^verbatim>\<open>Infinity\<close>
  and \<^verbatim>\<open>NaN\<close> are returned as they are.
\<close>

fun Math_round :: "jsnum \<Rightarrow> jsnum" where
  "Math_round (Fin q) = Fin (of_int \<lfloor>q + 1 / 2\<rfloor>)"
| "Math_round PInf = PInf"
| "Math_round NaN = NaN"

section \<open>The state of the component\<close>

record jsfile =
  fname :: string
  fsize :: nat
  ftype :: string

datatype kind = Image | Video

text \<open>
  The nine \<^verbatim>\<open>useState\<close> variables (\<^verbatim>\<open>file\<close> is written \<open>cfile\<close>, the
  plain name being reserved). A preview URL made by \<^verbatim>\<open>URL.createObjectURL\<close> is a
  fresh non-empty string; it is represented by a number, its handle. The tenth field is
  not a variable of the component: \<open>jobRef\<close> tells apart the arrays and objects that are
  stored in \<^verbatim>\<open>jobId\<close> one after the other, which are equal only to themselves; it
  counts them.
\<close>

record state =
  cfile :: "jsfile option"
  fileType :: "kind option"
  previewUrl :: "nat option"
  message :: jsval
  uploadProgress :: jsnum
  processingProgress :: jsval
  jobId :: jsval
  resultUrl :: jsval
  isProcessing :: bool
  jobRef :: nat

definition initial :: state where
  "initial =
     \<lparr> cfile = None, fileType = None, previewUrl = None, message = Str [],
       uploadProgress = Fin 0, processingProgress = Null, jobId = Null,
       resultUrl = Null, isProcessing = False, jobRef = 0 \<rparr>"

text \<open>
  The JSX puts \<^verbatim>\<open>message\<close> and \<^verbatim>\<open>processingProgress\<close> into the page as children
  of an element; every other variable reaches only attributes, tests and text built from
  the file. The state can be rendered when these two can.
\<close>

definition renders :: "state \<Rightarrow> bool" where
  "renders s \<longleftrightarrow> renderable (message s) \<and> renderable (processingProgress s)"

definition POLL_INTERVAL :: nat where
  "POLL_INTERVAL = 3000"

definition MAX_FILE_SIZE_BYTES :: nat where
  "MAX_FILE_SIZE_BYTES = 1024 * 1024 * 1024"

section \<open>The component in its surroundings\<close>

text \<open>
  The browser's object-URL registry is observed through the log of the calls made to it,
  the newest call first. A call of \<^verbatim>\<open>URL.createObjectURL\<close> returns a handle not
  returned before: the number of such calls made before it.
\<close>

datatype url_call = Create nat | Revoke nat

fun creations :: "url_call list \<Rightarrow> nat" where
  "creations [] = 0"
| "creations (Create h # l) = Suc (creations l)"
| "creations (Revoke h # l) = creations l"

fun releases :: "url_call list \<Rightarrow> nat" where
  "releases [] = 0"
| "releases (Create h # l) = releases l"
| "releases (Revoke h # l) = Suc (releases l)"

fun released :: "url_call list \<Rightarrow> nat set" where
  "released [] = {}"
| "released (Create h # l) = released l"
| "released (Revoke h # l) = insert h (released l)"

text \<open>The handles that are live after the calls of the log: created and not revoked since.\<close>

fun live :: "url_call list \<Rightarrow> nat set" where
  "live [] = {}"
| "live (Create h # l) = insert h (live l)"
| "live (Revoke h # l) = live l - {h}"

text \<open>An upload in flight, as \<^verbatim>\<open>startUpscale\<close> builds it.\<close>

record request =
  endpoint :: string
  payload :: jsfile
  params :: "(string \<times> string) list"

text \<open>
  One run of the polling effect whose guard held: the job it captured, whether its
  \<^verbatim>\<open>fetch\<close> is in flight, and the delay of the timeout its \<^verbatim>\<open>timer\<close> variable
  holds while that timeout is pending.
\<close>

record poller =
  pjob :: jsval
  pfetch :: bool
  ptimer :: "nat option"

text \<open>
  The component with its surroundings: the React state, whether it is mounted, the
  object-URL calls, the uploads in flight and the requests sent, every poller started so
  far, the poller of the current run of the polling effect, and the status queries issued
  (oldest first, by job).
\<close>

record sys =
  ui :: state
  mounted :: bool
  urllog :: "url_call list"
  uploads :: nat
  sent :: "request list"
  pollers :: "poller list"
  cur :: "nat option"
  queries :: "jsval list"

definition init_sys :: sys where
  "init_sys =
     \<lparr> ui = initial, mounted = True, urllog = [], uploads = 0, sent = [],
       pollers = [], cur = None, queries = [] \<rparr>"

section \<open>File intake\<close>

text \<open>\<^verbatim>\<open>if (previewUrl) URL.revokeObjectURL(previewUrl)\<close>\<close>

definition revoke_preview :: "nat option \<Rightarrow> url_call list \<Rightarrow> url_call list" where
  "revoke_preview p l = (case p of Some h \<Rightarrow> Revoke h # l | None \<Rightarrow> l)"

definition kind_of :: "string \<Rightarrow> kind option" where
  "kind_of t =
     (if prefix ''image/'' t then Some Image
      else if prefix ''video/'' t then Some Video
      else None)"

text \<open>
  \<^verbatim>\<open>onFiles(files)\<close>; \<open>None\<close> is a null file list. The state setters take effect
  together when the handler returns; the object-URL calls happen at once, in order.
\<close>

definition onFiles :: "jsfile list option \<Rightarrow> sys \<Rightarrow> sys" where
  "onFiles files y =
     (case files of
        None \<Rightarrow> y
      | Some [] \<Rightarrow> y
      | Some (f # _) \<Rightarrow>
          if MAX_FILE_SIZE_BYTES < fsize f then
            y\<lparr>ui := (ui y)\<lparr>message :=
              Str ''File too large. Please upload a smaller file or use chunked/direct upload.''\<rparr>\<rparr>
          else
            let l = revoke_preview (previewUrl (ui y)) (urllog y);
                h = creations l
            in y\<lparr>ui := (ui y)\<lparr>cfile := Some f, fileType := kind_of (ftype f),
                       message := Str [], previewUrl := Some h, resultUrl := Null,
                       processingProgress := Null, uploadProgress := Fin 0\<rparr>,
                 urllog := Create h # l\<rparr>)"

section \<open>Transfer\<close>

record progress_event =
  lengthComputable :: bool
  loaded :: nat
  total :: nat

text \<open>
  \<^verbatim>\<open>xhr.upload.onprogress\<close>: the percentage handed to \<^verbatim>\<open>onProgress\<close>, or \<open>None\<close>
  when the callback is not invoked.
\<close>

definition xhr_onprogress :: "progress_event \<Rightarrow> jsnum option" where
  "xhr_onprogress ev =
     (if lengthComputable ev then Some (Math_round (js_times100 (js_div (loaded ev) (total ev))))
      else None)"

text \<open>
  \<^verbatim>\<open>xhr.onload\<close> and \<^verbatim>\<open>xhr.onerror\<close> settle the promise of \<^verbatim>\<open>uploadFile\<close>:
  \<open>Inr\<close> resolves with a value, \<open>Inl\<close> rejects with an \<^verbatim>\<open>Error\<close> of that message.
  The response text is given by what \<^verbatim>\<open>JSON.parse\<close> makes of it, \<open>None\<close> when it
  throws.
\<close>

definition xhr_onload :: "nat \<Rightarrow> jsval option \<Rightarrow> string + jsval" where
  "xhr_onload status body =
     (if 200 \<le> status \<and> status < 300 then
        (case body of Some resp \<Rightarrow> Inr resp | None \<Rightarrow> Inr (Obj []))
      else Inl (''Upload failed: '' @ dec status))"

definition xhr_onerror :: "string + jsval" where
  "xhr_onerror = Inl ''Network error during upload''"

text \<open>
  \<^verbatim>\<open>startUpscale\<close> up to its \<^verbatim>\<open>await\<close>: the new state and the request sent, if any.
\<close>

definition startUpscale_begin :: "state \<Rightarrow> state \<times> request option" where
  "startUpscale_begin s =
     (case cfile s of
        None \<Rightarrow> (s\<lparr>message := Str ''Koi file select karo.''\<rparr>, None)
      | Some f \<Rightarrow>
          (s\<lparr>message := Str [], uploadProgress := Fin 0, processingProgress := Null,
             resultUrl := Null, isProcessing := True\<rparr>,
           Some \<lparr> endpoint = (if fileType s = Some Image then ''/api/upscale-image''
                               else ''/api/upscale-video''),
                  payload = f,
                  params = [(''target_resolution'', ''3840x2160''), (''scale'', ''4x''),
                            (''preserve_audio'', ''true'')] \<rparr>))"

text \<open>
  The message of the TypeError that reading a property of \<^verbatim>\<open>null\<close> raises (the
  wording of V8; no property of the component depends on it).
\<close>

definition type_error_message :: "string \<Rightarrow> string" where
  "type_error_message k = ''Cannot read properties of null (reading '' @ [CHR 0x27] @ k @ [CHR 0x27] @ '')''"

text \<open>\<^verbatim>\<open>startUpscale\<close> after its \<^verbatim>\<open>await\<close>, on the settled promise.\<close>

definition startUpscale_resume :: "string + jsval \<Rightarrow> state \<Rightarrow> state" where
  "startUpscale_resume outcome s =
     (case outcome of
        Inl msg \<Rightarrow> s\<lparr>message := Str (''Upload failed: '' @ msg), isProcessing := False\<rparr>
      | Inr response \<Rightarrow>
          if nullish response then
            s\<lparr>message := Str (''Upload failed: '' @ type_error_message ''jobId''),
              isProcessing := False\<rparr>
          else if truthy (field response ''jobId'') then
            s\<lparr>jobId := field response ''jobId'',
              message := Str ''File uploaded. Processing started...'',
              jobRef := (if primitive (field response ''jobId'') then jobRef s
                         else Suc (jobRef s))\<rparr>
          else if truthy (field response ''resultUrl'') then
            s\<lparr>resultUrl := field response ''resultUrl'', isProcessing := False\<rparr>
          else
            s\<lparr>message := Str ''Unexpected server response. Check backend logs.'',
              isProcessing := False\<rparr>)"

section \<open>Completion tracking\<close>

text \<open>
  What \<^verbatim>\<open>await fetch(...)\<close> and \<^verbatim>\<open>await res.json()\<close> deliver: a rejected fetch, or
  a response with its \<^verbatim>\<open>ok\<close> flag and its parsed body (\<open>None\<close> when parsing rejects).
\<close>

datatype fetch_outcome = NetworkError | Response bool "jsval option"

text \<open>The \<^verbatim>\<open>catch\<close> branch of \<^verbatim>\<open>poll\<close>.\<close>

definition poll_catch :: "state \<Rightarrow> state \<times> bool" where
  "poll_catch s = (s\<lparr>message := Str ''Could not fetch job status. Trying again...''\<rparr>, True)"

text \<open>
  The body of \<^verbatim>\<open>poll\<close> after the fetch settled: the new state, and whether
  \<^verbatim>\<open>setTimeout(poll, POLL_INTERVAL)\<close> was called.
\<close>

definition poll_resume :: "fetch_outcome \<Rightarrow> state \<Rightarrow> state \<times> bool" where
  "poll_resume outcome s =
     (case outcome of
        NetworkError \<Rightarrow> poll_catch s
      | Response ok body \<Rightarrow>
          if \<not> ok then poll_catch s
          else (case body of
                  None \<Rightarrow> poll_catch s
                | Some data \<Rightarrow>
                    if nullish data then poll_catch s
                    else
                      let s1 = s\<lparr>processingProgress := js_coalesce (field data ''progress'') Null\<rparr>
                      in if field data ''status'' = Str ''done'' then
                           (s1\<lparr>resultUrl := field data ''resultUrl'', isProcessing := False,
                               jobId := Null\<rparr>, False)
                         else if field data ''status'' = Str ''failed'' then
                           (s1\<lparr>message := js_or (field data ''error'')
                                               (Str ''Processing failed on server''),
                               isProcessing := False, jobId := Null\<rparr>, False)
                         else (s1, True)))"

section \<open>Reset\<close>

definition clearAll :: "sys \<Rightarrow> sys" where
  "clearAll y =
     y\<lparr>ui := (ui y)\<lparr>cfile := None, fileType := None, previewUrl := None, message := Str [],
                uploadProgress := Fin 0, processingProgress := Null, resultUrl := Null,
                jobId := Null, isProcessing := False\<rparr>,
       urllog := revoke_preview (previewUrl (ui y)) (urllog y)\<rparr>"

section \<open>Effects and events\<close>

text \<open>
  \<^verbatim>\<open>clearTimeout(timer)\<close> in the cleanup of the current run of the polling effect: a
  pending timeout of its poller is cancelled. A run whose guard failed has no poller and
  its \<^verbatim>\<open>timer\<close> is \<^verbatim>\<open>null\<close>.
\<close>

definition clearTimeout_cur :: "sys \<Rightarrow> sys" where
  "clearTimeout_cur y =
     (case cur y of
        None \<Rightarrow> y
      | Some i \<Rightarrow>
          if i < length (pollers y)
          then y\<lparr>pollers := (pollers y)[i := (pollers y ! i)\<lparr>ptimer := None\<rparr>]\<rparr>
          else y)"

text \<open>
  The effect on \<^verbatim>\<open>[previewUrl]\<close> after a render: when the dependency changed, the
  cleanup of the previous run revokes the URL that run captured.
\<close>

definition preview_effect :: "state \<Rightarrow> sys \<Rightarrow> sys" where
  "preview_effect old y =
     (if previewUrl (ui y) = previewUrl old then y
      else y\<lparr>urllog := revoke_preview (previewUrl old) (urllog y)\<rparr>)"

text \<open>
  The effect on \<^verbatim>\<open>[jobId, isProcessing]\<close> after a render: when a dependency changed
  (by \<^verbatim>\<open>Object.is\<close>: another value, or another array or object), the cleanup of the
  previous run clears its timer and the effect runs again; if its guard holds it calls
  \<^verbatim>\<open>poll()\<close>, which issues the first status query at once.
\<close>

definition polling_effect :: "state \<Rightarrow> sys \<Rightarrow> sys" where
  "polling_effect old y =
     (if jobId (ui y) = jobId old \<and> jobRef (ui y) = jobRef old \<and>
         isProcessing (ui y) = isProcessing old then y
      else
        let y1 = clearTimeout_cur y
        in if truthy (jobId (ui y)) \<and> isProcessing (ui y) then
             y1\<lparr>pollers := pollers y1 @ [\<lparr>pjob = jobId (ui y), pfetch = True, ptimer = None\<rparr>],
                cur := Some (length (pollers y1)),
                queries := queries y1 @ [jobId (ui y)]\<rparr>
           else y1\<lparr>cur := None\<rparr>)"

text \<open>The render that follows a batch of state updates; \<open>old\<close> is the state before.\<close>

definition render :: "state \<Rightarrow> sys \<Rightarrow> sys" where
  "render old y = polling_effect old (preview_effect old y)"

text \<open>Teardown: both cleanups run.\<close>

definition unmount :: "sys \<Rightarrow> sys" where
  "unmount y =
     (clearTimeout_cur (y\<lparr>urllog := revoke_preview (previewUrl (ui y)) (urllog y)\<rparr>))
       \<lparr>mounted := False, cur := None\<rparr>"

text \<open>
  State setters called from a promise continuation. On an unmounted component they are
  ignored. On a mounted one they are followed by a render, taken together. The render
  throws when the update leaves the state with something React cannot render; there is no
  error boundary, so React then removes the component: the update is lost and both
  cleanups run. A mounted component is in a state that was rendered (lemma
  \<open>renders_reachable\<close> below), so the render fails exactly when the new state cannot be
  rendered; for a mounted component in a state that cannot be rendered, which does not
  arise, the update is taken as it is.
\<close>

definition set_state :: "state \<Rightarrow> sys \<Rightarrow> sys" where
  "set_state s y =
     (if \<not> mounted y then y
      else if renders s \<or> \<not> renders (ui y) then render (ui y) (y\<lparr>ui := s\<rparr>)
      else unmount y)"

text \<open>\<^verbatim>\<open>startUpscale\<close> as the click handler: the synchronous part, with the upload sent.\<close>

definition startUpscale :: "sys \<Rightarrow> sys" where
  "startUpscale y =
     (case startUpscale_begin (ui y) of
        (s, None) \<Rightarrow> y\<lparr>ui := s\<rparr>
      | (s, Some r) \<Rightarrow> y\<lparr>ui := s, uploads := Suc (uploads y), sent := r # sent y\<rparr>)"

text \<open>
  What can happen to the component. The two buttons exist only while a file is selected,
  and the upscale button is disabled while \<^verbatim>\<open>isProcessing\<close>; an upload event needs an
  upload in flight, a settled status query a poller whose fetch is in flight, a fired timer
  a poller whose timeout is pending.
\<close>

datatype event =
    OnFiles "jsfile list option"
  | ClickUpscale
  | ClickClear
  | UploadProgress progress_event
  | UploadLoad nat "jsval option"
  | UploadError
  | PollSettled nat fetch_outcome
  | TimerFired nat
  | Unmount

fun step :: "sys \<Rightarrow> event \<Rightarrow> sys option" where
  "step y (OnFiles files) =
     (if mounted y then Some (render (ui y) (onFiles files y)) else None)"
| "step y ClickUpscale =
     (if mounted y \<and> cfile (ui y) \<noteq> None \<and> \<not> isProcessing (ui y)
      then Some (render (ui y) (startUpscale y)) else None)"
| "step y ClickClear =
     (if mounted y \<and> cfile (ui y) \<noteq> None
      then Some (render (ui y) (clearAll y)) else None)"
| "step y (UploadProgress ev) =
     (if 0 < uploads y then
        Some (case xhr_onprogress ev of
                None \<Rightarrow> y
              | Some pct \<Rightarrow> set_state ((ui y)\<lparr>uploadProgress := pct\<rparr>) y)
      else None)"
| "step y (UploadLoad status body) =
     (if 0 < uploads y then
        Some (set_state (startUpscale_resume (xhr_onload status body) (ui y))
                (y\<lparr>uploads := uploads y - 1\<rparr>))
      else None)"
| "step y UploadError =
     (if 0 < uploads y then
        Some (set_state (startUpscale_resume xhr_onerror (ui y)) (y\<lparr>uploads := uploads y - 1\<rparr>))
      else None)"
| "step y (PollSettled i outcome) =
     (if i < length (pollers y) \<and> pfetch (pollers y ! i) then
        (case poll_resume outcome (ui y) of
           (s, again) \<Rightarrow>
             Some (set_state s
                     (y\<lparr>pollers := (pollers y)[i := (pollers y ! i)
                          \<lparr>pfetch := False,
                           ptimer := (if again then Some POLL_INTERVAL else None)\<rparr>]\<rparr>)))
      else None)"
| "step y (TimerFired i) =
     (if i < length (pollers y) \<and> ptimer (pollers y ! i) \<noteq> None then
        Some (y\<lparr>pollers := (pollers y)[i := (pollers y ! i)\<lparr>pfetch := True, ptimer := None\<rparr>],
                queries := queries y @ [pjob (pollers y ! i)]\<rparr>)
      else None)"
| "step y Unmount = (if mounted y then Some (unmount y) else None)"

fun exec :: "sys \<Rightarrow> event list \<Rightarrow> sys option" where
  "exec y [] = Some y"
| "exec y (e # es) = (case step y e of None \<Rightarrow> None | Some y' \<Rightarrow> exec y' es)"

section \<open>Notions used in the statements\<close>

text \<open>
  A poller is spent when it has neither a status query in flight nor a timeout pending:
  nothing can make it issue a query again.
\<close>

definition dead :: "sys \<Rightarrow> nat \<Rightarrow> bool" where
  "dead y i \<longleftrightarrow>
     i < length (pollers y) \<and> \<not> pfetch (pollers y ! i) \<and> ptimer (pollers y ! i) = None"

text \<open>
  A status query that itself fails: the fetch rejects, the response is not ok, or its body
  does not parse.
\<close>

fun query_failed :: "fetch_outcome \<Rightarrow> bool" where
  "query_failed NetworkError = True"
| "query_failed (Response ok None) = True"
| "query_failed (Response ok (Some data)) = (\<not> ok)"

text \<open>
  The events of poller \<open>i\<close> meeting the given outcomes one after the other, its timeout
  firing after each.
\<close>

fun retry_rounds :: "nat \<Rightarrow> fetch_outcome list \<Rightarrow> event list" where
  "retry_rounds i [] = []"
| "retry_rounds i (outcome # outcomes) =
     PollSettled i outcome # TimerFired i # retry_rounds i outcomes"

text \<open>
  A well-formed log of object-URL calls: a handle is created only when none is live.
\<close>

fun wf_log :: "url_call list \<Rightarrow> bool" where
  "wf_log [] = True"
| "wf_log (Create h # l) = (live l = {} \<and> wf_log l)"
| "wf_log (Revoke h # l) = wf_log l"

text \<open>
  The log agrees with the preview handle \<open>p\<close> the component holds: \<open>p\<close> is the one live
  handle (none when \<open>p\<close> is \<open>None\<close>), and every other handle created so far has been
  released.
\<close>

definition log_inv :: "url_call list \<Rightarrow> nat option \<Rightarrow> bool" where
  "log_inv l p \<longleftrightarrow>
     wf_log l \<and> live l = set_option p \<and> released l \<inter> live l = {} \<and>
     released l \<union> live l = {..<creations l}"

text \<open>
  The invariant of the preview handles: while the component is mounted the log agrees
  with \<^verbatim>\<open>previewUrl\<close> and every released handle has been revoked twice (once by the
  handler, once by the cleanup of the preview effect); after teardown nothing is live.
\<close>

definition preview_inv :: "sys \<Rightarrow> bool" where
  "preview_inv y \<longleftrightarrow>
     (if mounted y
      then log_inv (urllog y) (previewUrl (ui y)) \<and>
           releases (urllog y) = 2 * card (released (urllog y))
      else log_inv (urllog y) None)"

text \<open>A poller with no query in flight and no timeout pending.\<close>

definition spent :: "poller \<Rightarrow> bool" where
  "spent p \<longleftrightarrow> \<not> pfetch p \<and> ptimer p = None"

text \<open>
  A reset is calm when it is made while no upload and no status query is in flight (a
  timeout may be pending). \<open>calm_resets y es\<close>: every reset among the events \<open>es\<close>,
  run from \<open>y\<close>, is calm.
\<close>

fun calm_resets :: "sys \<Rightarrow> event list \<Rightarrow> bool" where
  "calm_resets y [] = True"
| "calm_resets y (e # es) =
     ((e \<noteq> ClickClear \<or> uploads y = 0 \<and> list_all (\<lambda>p. \<not> pfetch p) (pollers y)) \<and>
      (case step y e of None \<Rightarrow> True | Some y' \<Rightarrow> calm_resets y' es))"

text \<open>
  The phases of a session in which every reset is calm. Unmounted, the state is frozen.
  Mounted and not processing: nothing is in flight and there is no job. Processing with
  no upload in flight: a job is tracked by the newest poller, which is the poller of the
  current run of the polling effect, and there is no result. Processing with an upload in
  flight: it is the only one, and there is neither job nor result.
\<close>

definition phase_inv :: "sys \<Rightarrow> bool" where
  "phase_inv y \<longleftrightarrow>
     (if \<not> mounted y then \<not> (truthy (jobId (ui y)) \<and> truthy (resultUrl (ui y)))
      else if \<not> isProcessing (ui y) then
        uploads y = 0 \<and> jobId (ui y) = Null \<and> list_all spent (pollers y)
      else if uploads y = 0 then
        truthy (jobId (ui y)) \<and> resultUrl (ui y) = Null \<and>
        list_all spent (butlast (pollers y)) \<and> cur y = Some (length (pollers y) - 1)
      else
        uploads y = 1 \<and> jobId (ui y) = Null \<and> resultUrl (ui y) = Null \<and>
        list_all spent (pollers y))"

text \<open>
  Nothing is in flight: no upload, no status query, no timeout; and a mounted component
  is not processing and has no job.
\<close>

definition idle :: "sys \<Rightarrow> bool" where
  "idle y \<longleftrightarrow>
     uploads y = 0 \<and> list_all spent (pollers y) \<and>
     (if mounted y then \<not> isProcessing (ui y) \<and> jobId (ui y) = Null else True)"

section \<open>Example runs\<close>

definition sample_file :: jsfile where
  "sample_file = \<lparr>fname = ''a.png'', fsize = 10, ftype = ''image/png''\<rparr>"

text \<open>The component after a file was chosen and the upscale button clicked.\<close>

definition uploading_state :: sys where
  "uploading_state =
     \<lparr> ui = \<lparr> cfile = Some sample_file, fileType = Some Image, previewUrl = Some 0,
              message = Str [], uploadProgress = Fin 0, processingProgress = Null,
              jobId = Null, resultUrl = Null, isProcessing = True, jobRef = 0 \<rparr>,
       mounted = True, urllog = [Create 0], uploads = 1,
       sent = [\<lparr> endpoint = ''/api/upscale-image'', payload = sample_file,
                 params = [(''target_resolution'', ''3840x2160''), (''scale'', ''4x''),
                           (''preserve_audio'', ''true'')] \<rparr>],
       pollers = [], cur = None, queries = [] \<rparr>"

text \<open>The same after the upload was answered with the job \<^verbatim>\<open>abc123\<close>.\<close>

definition polling_state :: sys where
  "polling_state =
     uploading_state
       \<lparr> ui := (ui uploading_state)
                 \<lparr> message := Str ''File uploaded. Processing started...'',
                   jobId := Str ''abc123'' \<rparr>,
         uploads := 0,
         pollers := [\<lparr>pjob = Str ''abc123'', pfetch = True, ptimer = None\<rparr>],
         cur := Some 0, queries := [Str ''abc123''] \<rparr>"

text \<open>
  A session with a reset made between two status queries: a job is started and its first
  query answered with \<^verbatim>\<open>processing\<close>; the reset comes while the timeout is pending;
  then the file is chosen again and uploaded, and the upload is answered with a result.
\<close>

definition reset_session :: "event list" where
  "reset_session =
     [OnFiles (Some [sample_file]), ClickUpscale,
      UploadLoad 200 (Some (Obj [(''jobId'', Str ''abc123'')])),
      PollSettled 0 (Response True (Some (Obj [(''status'', Str ''processing'')]))),
      ClickClear,
      OnFiles (Some [sample_file]), ClickUpscale,
      UploadLoad 200 (Some (Obj [(''resultUrl'', Str ''https://x/out.mp4'')]))]"

definition reset_session_end :: sys where
  "reset_session_end =
     init_sys
       \<lparr> ui := initial
                 \<lparr> cfile := Some sample_file, fileType := Some Image, previewUrl := Some 1,
                   resultUrl := Str ''https://x/out.mp4'' \<rparr>,
         urllog := [Create 1, Revoke 0, Revoke 0, Create 0],
         sent := sent uploading_state @ sent uploading_state,
         pollers := [\<lparr>pjob = Str ''abc123'', pfetch = False, ptimer = None\<rparr>],
         queries := [Str ''abc123''] \<rparr>"

text \<open>
  A session in which a reset is made while the first upload is in flight. The file is
  chosen again and uploaded a second time. The first upload is answered with the job
  \<^verbatim>\<open>abc123\<close>, and its first status query goes out. The second upload fails, which
  clears the processing flag and leaves the job. The upscale button is clicked again, and
  the polling effect starts a second poller for the same job. The query of the first
  poller is answered with \<^verbatim>\<open>processing\<close>, the query of the second with
  \<^verbatim>\<open>done\<close>.
\<close>

definition overlap_session :: "event list" where
  "overlap_session =
     [OnFiles (Some [sample_file]), ClickUpscale,
      ClickClear,
      OnFiles (Some [sample_file]), ClickUpscale,
      UploadLoad 200 (Some (Obj [(''jobId'', Str ''abc123'')])),
      UploadError,
      ClickUpscale,
      PollSettled 0 (Response True (Some (Obj [(''status'', Str ''processing'')]))),
      PollSettled 1 (Response True (Some (Obj [(''status'', Str ''done''),
                                               (''resultUrl'', Str ''https://x/u.png'')])))]"
section \<open>Basic facts\<close>

lemmas run_defs =
  init_sys_def initial_def onFiles_def startUpscale_def startUpscale_begin_def
  startUpscale_resume_def xhr_onload_def xhr_onerror_def clearAll_def unmount_def
  set_state_def render_def preview_effect_def polling_effect_def clearTimeout_cur_def
  poll_resume_def poll_catch_def revoke_preview_def kind_of_def js_or_def js_coalesce_def
  renders_def MAX_FILE_SIZE_BYTES_def POLL_INTERVAL_def Let_def

lemma exec_append:
  "exec y (es @ es') = (case exec y es of None \<Rightarrow> None | Some y' \<Rightarrow> exec y' es')"
  by (induction es arbitrary: y) (simp_all split: option.split)

lemma uploading_state_run:
  "exec init_sys [OnFiles (Some [sample_file]), ClickUpscale] = Some uploading_state"
  by (simp add: run_defs uploading_state_def sample_file_def)

lemma polling_state_run:
  "exec init_sys [OnFiles (Some [sample_file]), ClickUpscale,
                  UploadLoad 200 (Some (Obj [(''jobId'', Str ''abc123'')]))] =
     Some polling_state"
  by (simp add: run_defs polling_state_def uploading_state_def sample_file_def)

lemma field_nullish: "nullish v \<Longrightarrow> field v k = Undefined"
  by (cases v) simp_all

lemma truthy_field_not_nullish: "truthy (field v k) \<Longrightarrow> \<not> nullish v"
  by (auto simp: field_nullish)

lemma ui_clearTimeout_cur [simp]: "ui (clearTimeout_cur y) = ui y"
  by (simp add: clearTimeout_cur_def split: option.split)

lemma queries_clearTimeout_cur [simp]: "queries (clearTimeout_cur y) = queries y"
  by (simp add: clearTimeout_cur_def split: option.split)

lemma length_pollers_clearTimeout_cur [simp]:
  "length (pollers (clearTimeout_cur y)) = length (pollers y)"
  by (simp add: clearTimeout_cur_def split: option.split)

lemma mounted_clearTimeout_cur [simp]: "mounted (clearTimeout_cur y) = mounted y"
  by (simp add: clearTimeout_cur_def split: option.split)

lemma ui_unmount [simp]: "ui (unmount y) = ui y"
  by (simp add: unmount_def)

lemma queries_unmount [simp]: "queries (unmount y) = queries y"
  by (simp add: unmount_def)

lemma length_pollers_unmount [simp]: "length (pollers (unmount y)) = length (pollers y)"
  by (simp add: unmount_def)

lemma uploads_unmount [simp]: "uploads (unmount y) = uploads y"
  by (simp add: unmount_def clearTimeout_cur_def split: option.split)

lemma mounted_unmount [simp]: "\<not> mounted (unmount y)"
  by (simp add: unmount_def)

lemma ui_preview_effect [simp]: "ui (preview_effect old y) = ui y"
  by (simp add: preview_effect_def)

lemma ui_polling_effect [simp]: "ui (polling_effect old y) = ui y"
  by (simp add: polling_effect_def Let_def)

lemma ui_render [simp]: "ui (render old y) = ui y"
  by (simp add: render_def)

lemma mounted_polling_effect [simp]: "mounted (polling_effect old y) = mounted y"
  by (simp add: polling_effect_def Let_def)

lemma mounted_render [simp]: "mounted (render old y) = mounted y"
  by (simp add: render_def preview_effect_def)

lemma set_state_unmounted: "\<not> mounted y \<Longrightarrow> set_state s y = y"
  by (simp add: set_state_def)

lemma set_state_commit:
  "mounted y \<Longrightarrow> renders s \<or> \<not> renders (ui y) \<Longrightarrow>
   set_state s y = render (ui y) (y\<lparr>ui := s\<rparr>)"
  by (auto simp: set_state_def)

lemma set_state_crash:
  "mounted y \<Longrightarrow> \<not> renders s \<Longrightarrow> renders (ui y) \<Longrightarrow> set_state s y = unmount y"
  by (simp add: set_state_def)

lemma set_state_cases:
  "set_state s y = y \<and> \<not> mounted y \<or>
   set_state s y = render (ui y) (y\<lparr>ui := s\<rparr>) \<and> mounted y \<or>
   set_state s y = unmount y \<and> mounted y"
  by (auto simp: set_state_def)

lemma ui_set_state:
  "mounted y \<Longrightarrow> renders s \<or> \<not> renders (ui y) \<Longrightarrow> ui (set_state s y) = s"
  by (simp add: set_state_commit)

text \<open>An update that leaves the progress alone and the message alone or a string.\<close>

lemma renders_keep:
  "renderable (message s) \<or> message s = message old \<Longrightarrow>
   processingProgress s = processingProgress old \<Longrightarrow> renders s \<or> \<not> renders old"
  by (auto simp: renders_def)

lemma startUpscale_resume_renders:
  "renders (startUpscale_resume outcome s) \<or> \<not> renders s"
  by (rule renders_keep)
     (simp_all add: startUpscale_resume_def split: sum.split)

lemma render_same:
  "previewUrl (ui y) = previewUrl old \<Longrightarrow> jobId (ui y) = jobId old \<Longrightarrow>
   jobRef (ui y) = jobRef old \<Longrightarrow>
   isProcessing (ui y) = isProcessing old \<Longrightarrow> render old y = y"
  by (simp add: render_def preview_effect_def polling_effect_def)

lemma render_idle:
  "\<not> (truthy (jobId (ui y)) \<and> isProcessing (ui y)) \<Longrightarrow>
   queries (render old y) = queries y \<and> length (pollers (render old y)) = length (pollers y)"
  by (auto simp: render_def polling_effect_def preview_effect_def Let_def)

section \<open>A spent poller stays spent\<close>

lemma dead_clearTimeout_cur: "dead y i \<Longrightarrow> dead (clearTimeout_cur y) i"
  by (auto simp: dead_def clearTimeout_cur_def nth_list_update split: option.split)

lemma dead_preview_effect: "dead y i \<Longrightarrow> dead (preview_effect old y) i"
  by (simp add: dead_def preview_effect_def)

lemma dead_polling_effect: "dead y i \<Longrightarrow> dead (polling_effect old y) i"
  using dead_clearTimeout_cur [of y i]
  by (auto simp: dead_def polling_effect_def Let_def nth_append)

lemma dead_render: "dead y i \<Longrightarrow> dead (render old y) i"
  by (simp add: render_def dead_polling_effect dead_preview_effect)

lemma dead_cong: "pollers y' = pollers y \<Longrightarrow> dead y i \<Longrightarrow> dead y' i"
  by (simp add: dead_def)

lemma dead_unmount: "dead y i \<Longrightarrow> dead (unmount y) i"
  using dead_clearTimeout_cur [of "y\<lparr>urllog := revoke_preview (previewUrl (ui y)) (urllog y)\<rparr>" i]
  by (simp add: unmount_def dead_def)

lemma dead_set_state:
  assumes "dead y i" shows "dead (set_state s y) i"
proof -
  have "dead (y\<lparr>ui := s\<rparr>) i" using assms by (simp add: dead_def)
  then have "dead (render (ui y) (y\<lparr>ui := s\<rparr>)) i" by (rule dead_render)
  then show ?thesis
    using set_state_cases [of s y] assms dead_unmount [of y i] by auto
qed

lemma pollers_onFiles [simp]: "pollers (onFiles files y) = pollers y"
  by (simp add: onFiles_def Let_def split: option.split list.split)

lemma pollers_startUpscale [simp]: "pollers (startUpscale y) = pollers y"
  by (simp add: startUpscale_def split: prod.split option.split)

lemma pollers_clearAll [simp]: "pollers (clearAll y) = pollers y"
  by (simp add: clearAll_def)

lemma dead_step:
  assumes "step y e = Some y'" and "dead y i"
  shows "dead y' i"
proof (cases e)
  case (OnFiles files)
  with assms show ?thesis
    by (auto split: if_splits intro!: dead_render dead_cong [of "onFiles files y" y])
next
  case ClickUpscale
  with assms show ?thesis
    by (auto split: if_splits intro!: dead_render dead_cong [of "startUpscale y" y])
next
  case ClickClear
  with assms show ?thesis
    by (auto split: if_splits intro!: dead_render dead_cong [of "clearAll y" y])
next
  case (UploadProgress ev)
  with assms show ?thesis
    by (auto split: if_splits option.splits intro!: dead_set_state)
next
  case (UploadLoad status body)
  with assms show ?thesis
    by (auto simp: dead_def split: if_splits intro!: dead_set_state [unfolded dead_def])
next
  case UploadError
  with assms show ?thesis
    by (auto simp: dead_def split: if_splits intro!: dead_set_state [unfolded dead_def])
next
  case (PollSettled j outcome)
  with assms have en: "j < length (pollers y)" "pfetch (pollers y ! j)"
    by (auto split: if_splits)
  with assms(2) have ne: "j \<noteq> i" by (auto simp: dead_def)
  obtain s again where pr: "poll_resume outcome (ui y) = (s, again)"
    by (cases "poll_resume outcome (ui y)")
  let ?y1 = "y\<lparr>pollers := (pollers y)[j := (pollers y ! j)
               \<lparr>pfetch := False, ptimer := (if again then Some POLL_INTERVAL else None)\<rparr>]\<rparr>"
  have "dead ?y1 i" using assms(2) ne by (simp add: dead_def)
  then have "dead (set_state s ?y1) i" by (rule dead_set_state)
  moreover have "y' = set_state s ?y1"
    using assms(1) PollSettled en pr by simp
  ultimately show ?thesis by simp
next
  case (TimerFired j)
  with assms have en: "j < length (pollers y)" "ptimer (pollers y ! j) \<noteq> None"
    by (auto split: if_splits)
  with assms(2) have ne: "j \<noteq> i" by (auto simp: dead_def)
  with assms TimerFired en show ?thesis by (auto simp: dead_def)
next
  case Unmount
  with assms show ?thesis
    by (auto split: if_splits intro: dead_unmount)
qed

lemma dead_exec: "exec y es = Some y' \<Longrightarrow> dead y i \<Longrightarrow> dead y' i"
proof (induction es arbitrary: y)
  case Nil
  then show ?case by simp
next
  case (Cons e es)
  then show ?case by (auto split: option.splits dest: dead_step)
qed

section \<open>The outcomes of a status query\<close>

lemma poll_resume_terminal:
  assumes "field data ''status'' = Str ''done'' \<or> field data ''status'' = Str ''failed''"
  shows "poll_resume (Response True (Some data)) s =
     (if field data ''status'' = Str ''done''
      then s\<lparr>processingProgress := js_coalesce (field data ''progress'') Null,
             resultUrl := field data ''resultUrl'', isProcessing := False, jobId := Null\<rparr>
      else s\<lparr>processingProgress := js_coalesce (field data ''progress'') Null,
             message := js_or (field data ''error'') (Str ''Processing failed on server''),
             isProcessing := False, jobId := Null\<rparr>, False)"
proof -
  have "\<not> nullish data" using assms by (auto simp: field_nullish)
  then show ?thesis using assms by (auto simp: poll_resume_def Let_def)
qed

text \<open>
  A terminal answer can be rendered when its progress can and, for a failure, its error
  can.
\<close>

lemma renders_terminal:
  assumes "field data ''status'' = Str ''done'' \<or> field data ''status'' = Str ''failed''"
    and "renderable (field data ''progress'')"
    and "field data ''status'' = Str ''failed'' \<longrightarrow> renderable (field data ''error'')"
  shows "renders (fst (poll_resume (Response True (Some data)) s)) \<or> \<not> renders s"
  using assms
  by (auto simp: poll_resume_terminal renders_def js_or_def js_coalesce_def)

lemma step_terminal:
  assumes "i < length (pollers y)" and "pfetch (pollers y ! i)"
    and "field data ''status'' = Str ''done'' \<or> field data ''status'' = Str ''failed''"
  shows "\<exists>y'. step y (PollSettled i (Response True (Some data))) = Some y' \<and>
           queries y' = queries y \<and> length (pollers y') = length (pollers y) \<and> dead y' i"
proof -
  let ?s = "fst (poll_resume (Response True (Some data)) (ui y))"
  let ?y1 = "y\<lparr>pollers := (pollers y)[i := (pollers y ! i)\<lparr>pfetch := False, ptimer := None\<rparr>]\<rparr>"
  have st: "step y (PollSettled i (Response True (Some data))) = Some (set_state ?s ?y1)"
    using assms by (simp add: poll_resume_terminal)
  have idle: "\<not> (truthy (jobId ?s) \<and> isProcessing ?s)"
    using assms(3) by (simp add: poll_resume_terminal)
  have "dead ?y1 i" using assms(1) by (simp add: dead_def)
  then have d: "dead (set_state ?s ?y1) i" by (rule dead_set_state)
  have "queries (render (ui ?y1) (?y1\<lparr>ui := ?s\<rparr>)) = queries y \<and>
        length (pollers (render (ui ?y1) (?y1\<lparr>ui := ?s\<rparr>))) = length (pollers y)"
    using render_idle [of "?y1\<lparr>ui := ?s\<rparr>" "ui ?y1"] idle by simp
  then have q: "queries (set_state ?s ?y1) = queries y \<and>
           length (pollers (set_state ?s ?y1)) = length (pollers y)"
    using set_state_cases [of ?s ?y1] by auto
  show ?thesis using st d q by simp
qed

lemma step_terminal_ui:
  assumes "i < length (pollers y)" and "pfetch (pollers y ! i)" and "mounted y"
    and "field data ''status'' = Str ''done'' \<or> field data ''status'' = Str ''failed''"
    and "renderable (field data ''progress'')"
    and "field data ''status'' = Str ''failed'' \<longrightarrow> renderable (field data ''error'')"
    and "step y (PollSettled i (Response True (Some data))) = Some y'"
  shows "ui y' = fst (poll_resume (Response True (Some data)) (ui y)) \<and> mounted y'"
proof -
  let ?s = "fst (poll_resume (Response True (Some data)) (ui y))"
  let ?y1 = "y\<lparr>pollers := (pollers y)[i := (pollers y ! i)\<lparr>pfetch := False, ptimer := None\<rparr>]\<rparr>"
  have st: "y' = set_state ?s ?y1"
    using assms(1,2,4,7) by (simp add: poll_resume_terminal)
  have "renders ?s \<or> \<not> renders (ui ?y1)"
    using renders_terminal [OF assms(4,5,6), of "ui y"] by simp
  then have "set_state ?s ?y1 = render (ui ?y1) (?y1\<lparr>ui := ?s\<rparr>)"
    using assms(3) by (intro set_state_commit) simp_all
  then show ?thesis using assms(3) by (simp add: st)
qed

lemma poll_resume_failed: "query_failed outcome \<Longrightarrow> poll_resume outcome s = poll_catch s"
  by (induction outcome rule: query_failed.induct) (simp_all add: poll_resume_def)

lemma step_query_failed:
  assumes "i < length (pollers y)" and "pfetch (pollers y ! i)" and "query_failed outcome"
  shows "step y (PollSettled i outcome) =
     Some (y\<lparr>ui := (if mounted y
                     then (ui y)\<lparr>message := Str ''Could not fetch job status. Trying again...''\<rparr>
                     else ui y),
             pollers := (pollers y)[i := (pollers y ! i)
                          \<lparr>pfetch := False, ptimer := Some POLL_INTERVAL\<rparr>]\<rparr>)"
proof -
  let ?p = "(pollers y ! i)\<lparr>pfetch := False, ptimer := Some POLL_INTERVAL\<rparr>"
  let ?s = "(ui y)\<lparr>message := Str ''Could not fetch job status. Trying again...''\<rparr>"
  let ?y1 = "y\<lparr>pollers := (pollers y)[i := ?p]\<rparr>"
  have st: "step y (PollSettled i outcome) = Some (set_state ?s ?y1)"
    using assms by (simp add: poll_resume_failed poll_catch_def)
  have "renders ?s \<or> \<not> renders (ui ?y1)"
    by (rule renders_keep) simp_all
  then have "mounted y \<Longrightarrow> set_state ?s ?y1 = ?y1\<lparr>ui := ?s\<rparr>"
    by (simp add: set_state_commit render_same)
  moreover have "\<not> mounted y \<Longrightarrow> set_state ?s ?y1 = ?y1"
    by (simp add: set_state_unmounted)
  ultimately show ?thesis
    unfolding st by (cases "mounted y") simp_all
qed

lemma round_query_failed:
  assumes "i < length (pollers y)" and "pfetch (pollers y ! i)" and "query_failed outcome"
  shows "exec y [PollSettled i outcome, TimerFired i] =
     Some (y\<lparr>ui := (if mounted y
                     then (ui y)\<lparr>message := Str ''Could not fetch job status. Trying again...''\<rparr>
                     else ui y),
             pollers := (pollers y)[i := (pollers y ! i)\<lparr>pfetch := True, ptimer := None\<rparr>],
             queries := queries y @ [pjob (pollers y ! i)]\<rparr>)"
proof -
  note s1 = step_query_failed [OF assms]
  show ?thesis
    unfolding exec.simps s1 using assms(1) by simp
qed

lemma rounds_query_failed:
  assumes "i < length (pollers y)" and "pfetch (pollers y ! i)" and "mounted y"
    and "list_all query_failed outcomes"
  shows "\<exists>y'. exec y (retry_rounds i outcomes) = Some y' \<and>
           mounted y' \<and> i < length (pollers y') \<and> pfetch (pollers y' ! i) \<and>
           pjob (pollers y' ! i) = pjob (pollers y ! i) \<and>
           jobId (ui y') = jobId (ui y) \<and> isProcessing (ui y') = isProcessing (ui y) \<and>
           resultUrl (ui y') = resultUrl (ui y) \<and>
           (outcomes \<noteq> [] \<longrightarrow>
              message (ui y') = Str ''Could not fetch job status. Trying again...'') \<and>
           queries y' = queries y @ replicate (length outcomes) (pjob (pollers y ! i))"
  using assms
proof (induction outcomes arbitrary: y)
  case Nil
  then show ?case by simp
next
  case (Cons outcome outcomes)
  let ?y1 = "y\<lparr>ui := (ui y)\<lparr>message := Str ''Could not fetch job status. Trying again...''\<rparr>,
             pollers := (pollers y)[i := (pollers y ! i)\<lparr>pfetch := True, ptimer := None\<rparr>],
             queries := queries y @ [pjob (pollers y ! i)]\<rparr>"
  have r: "exec y [PollSettled i outcome, TimerFired i] = Some ?y1"
    using round_query_failed [of i y outcome] Cons.prems by simp
  have "\<exists>y'. exec ?y1 (retry_rounds i outcomes) = Some y' \<and>
           mounted y' \<and> i < length (pollers y') \<and> pfetch (pollers y' ! i) \<and>
           pjob (pollers y' ! i) = pjob (pollers ?y1 ! i) \<and>
           jobId (ui y') = jobId (ui ?y1) \<and> isProcessing (ui y') = isProcessing (ui ?y1) \<and>
           resultUrl (ui y') = resultUrl (ui ?y1) \<and>
           (outcomes \<noteq> [] \<longrightarrow>
              message (ui y') = Str ''Could not fetch job status. Trying again...'') \<and>
           queries y' = queries ?y1 @ replicate (length outcomes) (pjob (pollers ?y1 ! i))"
    using Cons.prems by (intro Cons.IH) simp_all
  then obtain y' where y': "exec ?y1 (retry_rounds i outcomes) = Some y'"
      "mounted y'" "i < length (pollers y')" "pfetch (pollers y' ! i)"
      "pjob (pollers y' ! i) = pjob (pollers ?y1 ! i)"
      "jobId (ui y') = jobId (ui ?y1)" "isProcessing (ui y') = isProcessing (ui ?y1)"
      "resultUrl (ui y') = resultUrl (ui ?y1)"
      "outcomes \<noteq> [] \<longrightarrow> message (ui y') = Str ''Could not fetch job status. Trying again...''"
      "queries y' = queries ?y1 @ replicate (length outcomes) (pjob (pollers ?y1 ! i))"
    by blast
  have "retry_rounds i (outcome # outcomes) =
          [PollSettled i outcome, TimerFired i] @ retry_rounds i outcomes"
    by simp
  then have e: "exec y (retry_rounds i (outcome # outcomes)) = Some y'"
    using r y'(1) by (simp only: exec_append option.case)
  have msg: "message (ui y') = Str ''Could not fetch job status. Trying again...''"
  proof (cases outcomes)
    case Nil
    then have "y' = ?y1" using y'(1) by simp
    then show ?thesis by simp
  next
    case (Cons a list)
    then show ?thesis using y'(9) by simp
  qed
  show ?case
    using e y'(2-8,10) msg Cons.prems(1) by (auto simp: replicate_app_Cons_same)
qed

section \<open>The invariant of the preview handles\<close>

lemma finite_live [simp]: "finite (live l)"
  by (induction l rule: live.induct) simp_all

lemma finite_released [simp]: "finite (released l)"
  by (induction l rule: released.induct) simp_all

lemma wf_log_card_live: "wf_log l \<Longrightarrow> card (live l) \<le> 1"
proof (induction l rule: wf_log.induct)
  case 1
  then show ?case by simp
next
  case (2 h l)
  then show ?case by simp
next
  case (3 h l)
  have "card (live l - {h}) \<le> card (live l)"
    by (rule card_mono) auto
  with 3 show ?case by simp
qed

lemma wf_log_suffix: "wf_log l \<Longrightarrow> suffix l' l \<Longrightarrow> wf_log l'"
proof (induction l rule: wf_log.induct)
  case 1
  then show ?case by simp
next
  case (2 h l)
  then show ?case by (auto simp: suffix_Cons)
next
  case (3 h l)
  then show ?case by (auto simp: suffix_Cons)
qed

lemma log_revoke_live:
  assumes "log_inv l (Some h)"
  shows "log_inv (Revoke h # l) None" and "card (released (Revoke h # l)) = Suc (card (released l))"
    and "h \<in> released (Revoke h # l)" and "creations (Revoke h # l) = creations l"
proof -
  from assms have l: "live l = {h}" and d: "h \<notin> released l"
    and u: "insert h (released l) = {..<creations l}" and w: "wf_log l"
    by (auto simp: log_inv_def)
  show "log_inv (Revoke h # l) None"
    using l u w by (simp add: log_inv_def)
  show "card (released (Revoke h # l)) = Suc (card (released l))"
    using d by simp
  show "h \<in> released (Revoke h # l)" by simp
  show "creations (Revoke h # l) = creations l" by simp
qed

lemma log_revoke_again:
  assumes "log_inv l p" and "h \<in> released l"
  shows "log_inv (Revoke h # l) p" and "released (Revoke h # l) = released l"
proof -
  from assms have "h \<notin> live l" by (auto simp: log_inv_def)
  then have "live l - {h} = live l" by simp
  moreover have r: "insert h (released l) = released l" using assms(2) by auto
  ultimately show "log_inv (Revoke h # l) p"
    using assms(1) by (clarsimp simp: log_inv_def)
  show "released (Revoke h # l) = released l" using r by simp
qed

lemma log_create:
  assumes "log_inv l None"
  shows "log_inv (Create (creations l) # l) (Some (creations l))"
    and "released (Create (creations l) # l) = released l"
proof -
  from assms have l: "live l = {}" and u: "released l = {..<creations l}" and w: "wf_log l"
    by (auto simp: log_inv_def)
  show "log_inv (Create (creations l) # l) (Some (creations l))"
    using l u w by (auto simp: log_inv_def lessThan_Suc)
  show "released (Create (creations l) # l) = released l" by simp
qed

lemma log_accept:
  assumes "log_inv l p" and "releases l = 2 * card (released l)"
  shows "log_inv (revoke_preview p (Create (creations (revoke_preview p l)) # revoke_preview p l))
           (Some (creations (revoke_preview p l)))"
    and "releases (revoke_preview p (Create (creations (revoke_preview p l)) # revoke_preview p l)) =
         2 * card (released
               (revoke_preview p (Create (creations (revoke_preview p l)) # revoke_preview p l)))"
    and "Some (creations (revoke_preview p l)) \<noteq> p"
proof -
  let ?l1 = "revoke_preview p l"
  let ?l2 = "Create (creations ?l1) # ?l1"
  let ?l3 = "revoke_preview p ?l2"
  have "log_inv ?l3 (Some (creations ?l1)) \<and> releases ?l3 = 2 * card (released ?l3) \<and>
        Some (creations ?l1) \<noteq> p"
  proof (cases p)
    case None
    then show ?thesis
      using assms log_create [of l] by (simp add: revoke_preview_def)
  next
    case (Some h)
    have l1: "?l1 = Revoke h # l" using Some by (simp add: revoke_preview_def)
    have i1: "log_inv ?l1 None" and c1: "card (released ?l1) = Suc (card (released l))"
      and h1: "h \<in> released ?l1"
      using log_revoke_live [of l h] assms(1) Some l1 by simp_all
    have i2: "log_inv ?l2 (Some (creations ?l1))" and r2: "released ?l2 = released ?l1"
      using log_create [OF i1] by simp_all
    have l3: "?l3 = Revoke h # ?l2" using Some by (simp add: revoke_preview_def)
    have h2: "h \<in> released ?l2" using h1 r2 by simp
    have i3: "log_inv ?l3 (Some (creations ?l1))" and r3: "released ?l3 = released ?l2"
      using log_revoke_again [OF i2 h2] l3 by simp_all
    have "h < creations l" using assms(1) Some by (auto simp: log_inv_def)
    then have ne: "Some (creations ?l1) \<noteq> p" using Some l1 by simp
    have "releases ?l3 = Suc (Suc (releases l))" using l3 l1 by simp
    then have "releases ?l3 = 2 * card (released ?l3)"
      using r3 r2 c1 assms(2) by simp
    then show ?thesis using i3 ne by simp
  qed
  then show "log_inv ?l3 (Some (creations ?l1))"
    and "releases ?l3 = 2 * card (released ?l3)" and "Some (creations ?l1) \<noteq> p"
    by simp_all
qed

lemma log_clear:
  assumes "log_inv l p" and "releases l = 2 * card (released l)"
  shows "log_inv (revoke_preview p (revoke_preview p l)) None"
    and "releases (revoke_preview p (revoke_preview p l)) =
         2 * card (released (revoke_preview p (revoke_preview p l)))"
proof -
  let ?l1 = "revoke_preview p l"
  let ?l2 = "revoke_preview p ?l1"
  have "log_inv ?l2 None \<and> releases ?l2 = 2 * card (released ?l2)"
  proof (cases p)
    case None
    then show ?thesis using assms by (simp add: revoke_preview_def)
  next
    case (Some h)
    have l1: "?l1 = Revoke h # l" using Some by (simp add: revoke_preview_def)
    have i1: "log_inv ?l1 None" and c1: "card (released ?l1) = Suc (card (released l))"
      and h1: "h \<in> released ?l1"
      using log_revoke_live [of l h] assms(1) Some l1 by simp_all
    have l2: "?l2 = Revoke h # ?l1" using Some by (simp add: revoke_preview_def)
    have i2: "log_inv ?l2 None" and r2: "released ?l2 = released ?l1"
      using log_revoke_again [OF i1 h1] l2 by simp_all
    have "releases ?l2 = Suc (Suc (releases l))" using l2 l1 by simp
    then show ?thesis using i2 r2 c1 assms(2) by simp
  qed
  then show "log_inv ?l2 None" and "releases ?l2 = 2 * card (released ?l2)"
    by simp_all
qed

lemma log_teardown:
  assumes "log_inv l p"
  shows "log_inv (revoke_preview p l) None"
proof (cases p)
  case None
  then show ?thesis using assms by (simp add: revoke_preview_def)
next
  case (Some h)
  then show ?thesis using log_revoke_live(1) [of l h] assms by (simp add: revoke_preview_def)
qed

lemma urllog_clearTimeout_cur [simp]: "urllog (clearTimeout_cur y) = urllog y"
  by (simp add: clearTimeout_cur_def split: option.split)

lemma urllog_polling_effect [simp]: "urllog (polling_effect old y) = urllog y"
  by (simp add: polling_effect_def Let_def)

lemma urllog_render:
  "urllog (render old y) =
     (if previewUrl (ui y) = previewUrl old then urllog y
      else revoke_preview (previewUrl old) (urllog y))"
  by (simp add: render_def preview_effect_def)

lemma previewUrl_startUpscale_resume [simp]:
  "previewUrl (startUpscale_resume outcome s) = previewUrl s"
  by (simp add: startUpscale_resume_def split: sum.split)

lemma previewUrl_poll_resume:
  "poll_resume outcome s = (s', again) \<Longrightarrow> previewUrl s' = previewUrl s"
  by (auto simp: poll_resume_def poll_catch_def Let_def
      split: fetch_outcome.splits option.splits if_splits)

lemma preview_inv_cong:
  "urllog y' = urllog y \<Longrightarrow> previewUrl (ui y') = previewUrl (ui y) \<Longrightarrow>
   mounted y' = mounted y \<Longrightarrow> preview_inv y \<Longrightarrow> preview_inv y'"
  by (simp add: preview_inv_def)

lemma preview_inv_unmount:
  assumes inv: "preview_inv y" and m: "mounted y"
  shows "preview_inv (unmount y)"
proof -
  from inv m have li: "log_inv (urllog y) (previewUrl (ui y))"
    by (simp add: preview_inv_def)
  show ?thesis
    using log_teardown [OF li] by (simp add: preview_inv_def unmount_def)
qed

lemma preview_inv_set_state:
  assumes "previewUrl s = previewUrl (ui y)" and "preview_inv y"
  shows "preview_inv (set_state s y)"
proof -
  have "preview_inv (render (ui y) (y\<lparr>ui := s\<rparr>))"
  proof (rule preview_inv_cong [OF _ _ _ assms(2)])
    show "urllog (render (ui y) (y\<lparr>ui := s\<rparr>)) = urllog y"
      using assms(1) by (simp add: urllog_render)
    show "previewUrl (ui (render (ui y) (y\<lparr>ui := s\<rparr>))) = previewUrl (ui y)"
      using assms(1) by simp
    show "mounted (render (ui y) (y\<lparr>ui := s\<rparr>)) = mounted y"
      by simp
  qed
  then show ?thesis
    using set_state_cases [of s y] assms(2) preview_inv_unmount [of y] by auto
qed

lemma onFiles_cases:
  "onFiles files y = y \<or>
   (\<exists>m. onFiles files y = y\<lparr>ui := (ui y)\<lparr>message := m\<rparr>\<rparr>) \<or>
   (\<exists>f k. onFiles files y =
      y\<lparr>ui := (ui y)\<lparr>cfile := Some f, fileType := k, message := Str [],
                 previewUrl := Some (creations (revoke_preview (previewUrl (ui y)) (urllog y))),
                 resultUrl := Null, processingProgress := Null, uploadProgress := Fin 0\<rparr>,
         urllog := Create (creations (revoke_preview (previewUrl (ui y)) (urllog y)))
                     # revoke_preview (previewUrl (ui y)) (urllog y)\<rparr>)"
proof (cases files)
  case None
  then show ?thesis by (simp add: onFiles_def)
next
  case (Some fs)
  show ?thesis
  proof (cases fs)
    case Nil
    then show ?thesis using Some by (simp add: onFiles_def)
  next
    case (Cons f fs')
    show ?thesis
    proof (cases "MAX_FILE_SIZE_BYTES < fsize f")
      case True
      then have "onFiles files y = y\<lparr>ui := (ui y)\<lparr>message :=
          Str ''File too large. Please upload a smaller file or use chunked/direct upload.''\<rparr>\<rparr>"
        using Some Cons by (simp add: onFiles_def)
      then show ?thesis by blast
    next
      case False
      then have "onFiles files y =
        y\<lparr>ui := (ui y)\<lparr>cfile := Some f, fileType := kind_of (ftype f), message := Str [],
                 previewUrl := Some (creations (revoke_preview (previewUrl (ui y)) (urllog y))),
                 resultUrl := Null, processingProgress := Null, uploadProgress := Fin 0\<rparr>,
           urllog := Create (creations (revoke_preview (previewUrl (ui y)) (urllog y)))
                     # revoke_preview (previewUrl (ui y)) (urllog y)\<rparr>"
        using Some Cons by (simp add: onFiles_def Let_def)
      then show ?thesis by blast
    qed
  qed
qed

lemma preview_inv_onFiles:
  assumes inv: "preview_inv y" and m: "mounted y"
  shows "preview_inv (render (ui y) (onFiles files y))"
proof -
  let ?p = "previewUrl (ui y)"
  let ?l1 = "revoke_preview ?p (urllog y)"
  let ?h = "creations ?l1"
  from inv m have li: "log_inv (urllog y) ?p"
    and cnt: "releases (urllog y) = 2 * card (released (urllog y))"
    by (simp_all add: preview_inv_def)
  consider (same) "onFiles files y = y"
    | (msg) m' where "onFiles files y = y\<lparr>ui := (ui y)\<lparr>message := m'\<rparr>\<rparr>"
    | (acc) f k where "onFiles files y =
        y\<lparr>ui := (ui y)\<lparr>cfile := Some f, fileType := k, message := Str [],
                 previewUrl := Some ?h,
                 resultUrl := Null, processingProgress := Null, uploadProgress := Fin 0\<rparr>,
           urllog := Create ?h # ?l1\<rparr>"
    using onFiles_cases [of files y] by blast
  then show ?thesis
  proof cases
    case same
    then show ?thesis using inv by (simp add: render_same)
  next
    case msg
    then show ?thesis using inv by (simp add: render_same preview_inv_def)
  next
    case acc
    note a = log_accept [OF li cnt]
    have u: "urllog (render (ui y) (onFiles files y)) = revoke_preview ?p (Create ?h # ?l1)"
      using a(3) by (simp add: acc urllog_render)
    have p: "previewUrl (ui (render (ui y) (onFiles files y))) = Some ?h"
      by (simp add: acc)
    have mm: "mounted (render (ui y) (onFiles files y))"
      using m by (simp add: acc)
    show ?thesis
      unfolding preview_inv_def using a(1,2) mm by (simp only: u p if_True simp_thms)
  qed
qed

lemma preview_inv_clearAll:
  assumes inv: "preview_inv y" and m: "mounted y"
  shows "preview_inv (render (ui y) (clearAll y))"
proof -
  let ?p = "previewUrl (ui y)"
  from inv m have li: "log_inv (urllog y) ?p"
    and cnt: "releases (urllog y) = 2 * card (released (urllog y))"
    by (simp_all add: preview_inv_def)
  note c = log_clear [OF li cnt]
  have u: "urllog (render (ui y) (clearAll y)) = revoke_preview ?p (revoke_preview ?p (urllog y))"
    by (cases ?p) (simp_all add: clearAll_def urllog_render revoke_preview_def)
  have p: "previewUrl (ui (render (ui y) (clearAll y))) = None"
    by (simp add: clearAll_def)
  have mm: "mounted (render (ui y) (clearAll y))"
    using m by (simp add: clearAll_def)
  show ?thesis
    unfolding preview_inv_def using c mm by (simp only: u p if_True simp_thms)
qed

lemma preview_inv_step:
  assumes "step y e = Some y'" and "preview_inv y"
  shows "preview_inv y'"
proof (cases e)
  case (OnFiles files)
  with assms show ?thesis by (auto split: if_splits intro: preview_inv_onFiles)
next
  case ClickUpscale
  have "preview_inv (startUpscale y)"
    using assms(2)
    by (rule preview_inv_cong [rotated 3])
       (simp_all add: startUpscale_def startUpscale_begin_def split: option.split)
  moreover have "previewUrl (ui (startUpscale y)) = previewUrl (ui y)"
    by (simp add: startUpscale_def startUpscale_begin_def split: option.split)
  ultimately have "preview_inv (render (ui y) (startUpscale y))"
    by (auto intro: preview_inv_cong [rotated 3] simp: urllog_render)
  with assms ClickUpscale show ?thesis by (auto split: if_splits)
next
  case ClickClear
  with assms show ?thesis by (auto split: if_splits intro: preview_inv_clearAll)
next
  case (UploadProgress ev)
  with assms show ?thesis
    by (auto split: if_splits option.splits intro!: preview_inv_set_state)
next
  case (UploadLoad status body)
  have "preview_inv (y\<lparr>uploads := uploads y - 1\<rparr>)"
    using assms(2) by (simp add: preview_inv_def)
  then have "preview_inv (set_state (startUpscale_resume (xhr_onload status body) (ui y))
                (y\<lparr>uploads := uploads y - 1\<rparr>))"
    by (intro preview_inv_set_state) simp_all
  with assms UploadLoad show ?thesis by (auto split: if_splits)
next
  case UploadError
  have "preview_inv (y\<lparr>uploads := uploads y - 1\<rparr>)"
    using assms(2) by (simp add: preview_inv_def)
  then have "preview_inv (set_state (startUpscale_resume xhr_onerror (ui y))
                (y\<lparr>uploads := uploads y - 1\<rparr>))"
    by (intro preview_inv_set_state) simp_all
  with assms UploadError show ?thesis by (auto split: if_splits)
next
  case (PollSettled i outcome)
  obtain s again where pr: "poll_resume outcome (ui y) = (s, again)"
    by (cases "poll_resume outcome (ui y)")
  let ?y1 = "y\<lparr>pollers := (pollers y)[i := (pollers y ! i)
               \<lparr>pfetch := False, ptimer := (if again then Some POLL_INTERVAL else None)\<rparr>]\<rparr>"
  have "preview_inv ?y1" using assms(2) by (simp add: preview_inv_def)
  then have "preview_inv (set_state s ?y1)"
    using previewUrl_poll_resume [OF pr] by (intro preview_inv_set_state) simp_all
  with assms PollSettled pr show ?thesis by (auto split: if_splits)
next
  case (TimerFired i)
  with assms show ?thesis by (auto simp: preview_inv_def split: if_splits)
next
  case Unmount
  with assms show ?thesis by (auto split: if_splits intro: preview_inv_unmount)
qed

lemma preview_inv_init: "preview_inv init_sys"
  by (simp add: preview_inv_def log_inv_def init_sys_def initial_def)

lemma preview_inv_exec: "exec y es = Some y' \<Longrightarrow> preview_inv y \<Longrightarrow> preview_inv y'"
proof (induction es arbitrary: y)
  case Nil
  then show ?case by simp
next
  case (Cons e es)
  then show ?case by (auto split: option.splits dest: preview_inv_step)
qed

section \<open>The phases of a session with calm resets\<close>

lemma phase_inv_exclusive:
  "phase_inv y \<Longrightarrow> \<not> (truthy (jobId (ui y)) \<and> truthy (resultUrl (ui y)))"
  by (auto simp: phase_inv_def split: if_splits)

lemma all_spent_clearTimeout_cur:
  "list_all spent (pollers y) \<Longrightarrow> list_all spent (pollers (clearTimeout_cur y))"
  by (auto simp: clearTimeout_cur_def list_all_length spent_def nth_list_update
      split: option.split)

lemma uploads_clearTimeout_cur [simp]: "uploads (clearTimeout_cur y) = uploads y"
  by (simp add: clearTimeout_cur_def split: option.split)

lemma uploads_render [simp]: "uploads (render old y) = uploads y"
  by (simp add: render_def polling_effect_def preview_effect_def Let_def)

lemma pollers_preview_effect [simp]: "pollers (preview_effect old y) = pollers y"
  by (simp add: preview_effect_def)

lemma cur_preview_effect [simp]: "cur (preview_effect old y) = cur y"
  by (simp add: preview_effect_def)

lemma pollers_render_same:
  "jobId (ui y) = jobId old \<Longrightarrow> jobRef (ui y) = jobRef old \<Longrightarrow>
   isProcessing (ui y) = isProcessing old \<Longrightarrow>
   pollers (render old y) = pollers y \<and> cur (render old y) = cur y"
  by (simp add: render_def polling_effect_def)

lemma all_spent_render_idle:
  assumes "\<not> (truthy (jobId (ui y)) \<and> isProcessing (ui y))" and "list_all spent (pollers y)"
  shows "list_all spent (pollers (render old y))"
proof -
  have "list_all spent (pollers (clearTimeout_cur (preview_effect old y)))"
    using assms(2) by (intro all_spent_clearTimeout_cur) simp
  then show ?thesis
    using assms by (auto simp: render_def polling_effect_def Let_def)
qed

lemma butlast_render_start:
  assumes "truthy (jobId (ui y)) \<and> isProcessing (ui y)"
    and "\<not> (jobId (ui y) = jobId old \<and> isProcessing (ui y) = isProcessing old)"
  shows "butlast (pollers (render old y)) = pollers (clearTimeout_cur (preview_effect old y)) \<and>
         cur (render old y) = Some (length (pollers (render old y)) - 1)"
  using assms by (auto simp: render_def polling_effect_def Let_def)

lemma phase_inv_keep:
  assumes "phase_inv y" and "mounted y' = mounted y" and "uploads y' = uploads y"
    and "pollers y' = pollers y" and "cur y' = cur y" and "jobId (ui y') = jobId (ui y)"
    and "isProcessing (ui y') = isProcessing (ui y)"
    and "resultUrl (ui y') = resultUrl (ui y) \<or> resultUrl (ui y') = Null"
  shows "phase_inv y'"
  using assms by (auto simp: phase_inv_def split: if_splits)

lemma phase_inv_onFiles:
  assumes "phase_inv y"
  shows "phase_inv (render (ui y) (onFiles files y))"
proof -
  let ?y2 = "onFiles files y"
  have j: "jobId (ui ?y2) = jobId (ui y)" and p: "isProcessing (ui ?y2) = isProcessing (ui y)"
    and jr: "jobRef (ui ?y2) = jobRef (ui y)"
    and r: "resultUrl (ui ?y2) = resultUrl (ui y) \<or> resultUrl (ui ?y2) = Null"
    and u: "uploads ?y2 = uploads y" and ps: "pollers ?y2 = pollers y"
    and c: "cur ?y2 = cur y" and m: "mounted ?y2 = mounted y"
    using onFiles_cases [of files y] by auto
  show ?thesis
    using assms
  proof (rule phase_inv_keep)
    show "pollers (render (ui y) ?y2) = pollers y"
      using j jr p ps by (simp add: pollers_render_same)
    show "cur (render (ui y) ?y2) = cur y"
      using j jr p c by (simp add: pollers_render_same)
  qed (simp_all add: j p r u m)
qed

lemma phase_inv_ClickUpscale:
  assumes "phase_inv y" and "mounted y" and "cfile (ui y) \<noteq> None" and "\<not> isProcessing (ui y)"
  shows "phase_inv (render (ui y) (startUpscale y))"
proof -
  from assms have idle: "uploads y = 0" "jobId (ui y) = Null" "list_all spent (pollers y)"
    by (simp_all add: phase_inv_def)
  obtain f where f: "cfile (ui y) = Some f" using assms(3) by auto
  let ?y2 = "startUpscale y"
  have ui2: "ui ?y2 = (ui y)\<lparr>message := Str [], uploadProgress := Fin 0,
               processingProgress := Null, resultUrl := Null, isProcessing := True\<rparr>"
    and u2: "uploads ?y2 = 1" and p2: "pollers ?y2 = pollers y" and m2: "mounted ?y2"
    using f assms(2) idle(1) by (simp_all add: startUpscale_def startUpscale_begin_def)
  have "\<not> (truthy (jobId (ui ?y2)) \<and> isProcessing (ui ?y2))"
    using idle(2) by (simp add: ui2)
  moreover have "list_all spent (pollers ?y2)" using idle(3) p2 by simp
  ultimately have "list_all spent (pollers (render (ui y) ?y2))"
    by (rule all_spent_render_idle)
  then show ?thesis
    using u2 m2 idle(2) by (simp add: phase_inv_def ui2)
qed

lemma startUpscale_resume_cases:
  "(\<exists>m. startUpscale_resume outcome s = s\<lparr>message := m, isProcessing := False\<rparr>) \<or>
   (\<exists>v m r. truthy v \<and>
      startUpscale_resume outcome s = s\<lparr>jobId := v, message := m, jobRef := r\<rparr>) \<or>
   (\<exists>v. startUpscale_resume outcome s = s\<lparr>resultUrl := v, isProcessing := False\<rparr>)"
proof (cases outcome)
  case (Inl msg)
  then have "startUpscale_resume outcome s =
      s\<lparr>message := Str (''Upload failed: '' @ msg), isProcessing := False\<rparr>"
    by (simp add: startUpscale_resume_def)
  then show ?thesis by blast
next
  case (Inr response)
  consider (n) "nullish response"
    | (j) "\<not> nullish response" "truthy (field response ''jobId'')"
    | (r) "\<not> nullish response" "\<not> truthy (field response ''jobId'')"
          "truthy (field response ''resultUrl'')"
    | (e) "\<not> nullish response" "\<not> truthy (field response ''jobId'')"
          "\<not> truthy (field response ''resultUrl'')"
    by blast
  then show ?thesis
  proof cases
    case n
    then have "startUpscale_resume outcome s =
        s\<lparr>message := Str (''Upload failed: '' @ type_error_message ''jobId''),
          isProcessing := False\<rparr>"
      using Inr by (simp add: startUpscale_resume_def)
    then show ?thesis by blast
  next
    case j
    then have "startUpscale_resume outcome s =
        s\<lparr>jobId := field response ''jobId'',
          message := Str ''File uploaded. Processing started...'',
          jobRef := (if primitive (field response ''jobId'') then jobRef s
                     else Suc (jobRef s))\<rparr>"
      using Inr by (simp add: startUpscale_resume_def)
    with j(2) show ?thesis by blast
  next
    case r
    then have "startUpscale_resume outcome s =
        s\<lparr>resultUrl := field response ''resultUrl'', isProcessing := False\<rparr>"
      using Inr by (simp add: startUpscale_resume_def)
    then show ?thesis by blast
  next
    case e
    then have "startUpscale_resume outcome s =
        s\<lparr>message := Str ''Unexpected server response. Check backend logs.'',
          isProcessing := False\<rparr>"
      using Inr by (simp add: startUpscale_resume_def)
    then show ?thesis by blast
  qed
qed

lemma phase_inv_upload_settled:
  assumes inv: "phase_inv y" and up: "0 < uploads y"
  shows "phase_inv (set_state (startUpscale_resume outcome (ui y)) (y\<lparr>uploads := uploads y - 1\<rparr>))"
proof (cases "mounted y")
  case False
  then show ?thesis
    using inv by (simp add: set_state_def phase_inv_def)
next
  case True
  with inv up have ph: "isProcessing (ui y)" "uploads y = 1" "jobId (ui y) = Null"
      "resultUrl (ui y) = Null" "list_all spent (pollers y)"
    by (auto simp: phase_inv_def split: if_splits)
  let ?s = "startUpscale_resume outcome (ui y)"
  let ?y1 = "y\<lparr>uploads := uploads y - 1, ui := ?s\<rparr>"
  have st: "set_state ?s (y\<lparr>uploads := uploads y - 1\<rparr>) = render (ui y) ?y1"
    using True startUpscale_resume_renders [of outcome "ui y"]
    by (simp add: set_state_commit)
  consider (stop) "\<not> isProcessing ?s" "jobId ?s = Null"
    | (job) "isProcessing ?s" "truthy (jobId ?s)" "resultUrl ?s = Null"
    using startUpscale_resume_cases [of outcome "ui y"] ph by auto
  then have "phase_inv (render (ui y) ?y1)"
  proof cases
    case stop
    have "list_all spent (pollers (render (ui y) ?y1))"
      using stop ph(5) by (intro all_spent_render_idle) simp_all
    then show ?thesis
      using stop True ph(2) by (simp add: phase_inv_def)
  next
    case job
    have "jobId ?s \<noteq> Null" using job(2) by auto
    then have "butlast (pollers (render (ui y) ?y1)) =
               pollers (clearTimeout_cur (preview_effect (ui y) ?y1)) \<and>
               cur (render (ui y) ?y1) = Some (length (pollers (render (ui y) ?y1)) - 1)"
      using job ph(3) by (intro butlast_render_start) simp_all
    moreover have "list_all spent (pollers (clearTimeout_cur (preview_effect (ui y) ?y1)))"
      using ph(5) by (intro all_spent_clearTimeout_cur) simp
    ultimately show ?thesis
      using job True ph(2) by (simp add: phase_inv_def)
  qed
  then show ?thesis by (simp only: st)
qed

lemma poll_resume_cases:
  assumes "poll_resume outcome s = (s', again)"
  shows "(again \<and> jobId s' = jobId s \<and> jobRef s' = jobRef s \<and>
          isProcessing s' = isProcessing s \<and> resultUrl s' = resultUrl s) \<or>
         (\<not> again \<and> jobId s' = Null \<and> \<not> isProcessing s')"
  using assms
  by (auto simp: poll_resume_def poll_catch_def Let_def
      split: fetch_outcome.splits option.splits if_splits)

lemma active_is_last:
  assumes "list_all spent (butlast ps)" and "i < length ps" and "\<not> spent (ps ! i)"
  shows "i = length ps - 1"
proof (rule ccontr)
  assume "i \<noteq> length ps - 1"
  with assms(2) have "i < length (butlast ps)" by simp
  then have "spent (butlast ps ! i)" using assms(1) by (simp add: list_all_length)
  then show False using assms(3) \<open>i < length (butlast ps)\<close> by (simp add: nth_butlast)
qed

lemma all_spent_last_update:
  assumes "list_all spent (butlast ps)" and "i = length ps - 1" and "spent p"
  shows "list_all spent (ps[i := p])"
  unfolding list_all_length
proof (intro allI impI)
  fix n assume n: "n < length (ps[i := p])"
  show "spent (ps[i := p] ! n)"
  proof (cases "n = i")
    case True
    then show ?thesis using n assms(3) by simp
  next
    case False
    then have "n < length (butlast ps)" using n assms(2) by simp
    then have "spent (butlast ps ! n)" using assms(1) by (simp add: list_all_length)
    then show ?thesis using False \<open>n < length (butlast ps)\<close> by (simp add: nth_butlast)
  qed
qed

lemma phase_inv_active:
  assumes "phase_inv y" and "mounted y" and "i < length (pollers y)"
    and "\<not> spent (pollers y ! i)"
  shows "isProcessing (ui y) \<and> uploads y = 0 \<and> truthy (jobId (ui y)) \<and>
         resultUrl (ui y) = Null \<and> list_all spent (butlast (pollers y)) \<and>
         i = length (pollers y) - 1 \<and> cur y = Some i"
proof -
  have "\<not> list_all spent (pollers y)"
    using assms(3,4) by (auto simp: list_all_length)
  then have ph: "isProcessing (ui y)" "uploads y = 0" "truthy (jobId (ui y))"
      "resultUrl (ui y) = Null" "list_all spent (butlast (pollers y))"
      "cur y = Some (length (pollers y) - 1)"
    using assms(1,2) by (auto simp: phase_inv_def split: if_splits)
  then show ?thesis using active_is_last [OF ph(5) assms(3,4)] by simp
qed

lemma phase_inv_unmount: "phase_inv y \<Longrightarrow> phase_inv (unmount y)"
  using phase_inv_exclusive [of y] by (simp add: phase_inv_def)

lemma phase_inv_poll_settled:
  assumes inv: "phase_inv y" and en: "i < length (pollers y)" "pfetch (pollers y ! i)"
    and pr: "poll_resume outcome (ui y) = (s, again)"
  shows "phase_inv (set_state s
           (y\<lparr>pollers := (pollers y)[i := (pollers y ! i)
                \<lparr>pfetch := False, ptimer := (if again then Some POLL_INTERVAL else None)\<rparr>]\<rparr>))"
proof (cases "mounted y")
  case False
  then show ?thesis
    using inv by (simp add: set_state_def phase_inv_def)
next
  case True
  let ?p = "(pollers y ! i)\<lparr>pfetch := False, ptimer := (if again then Some POLL_INTERVAL else None)\<rparr>"
  let ?y0 = "y\<lparr>pollers := (pollers y)[i := ?p]\<rparr>"
  let ?y1 = "y\<lparr>pollers := (pollers y)[i := ?p], ui := s\<rparr>"
  have ns: "\<not> spent (pollers y ! i)" using en(2) by (simp add: spent_def)
  note ph = phase_inv_active [OF inv True en(1) ns]
  have bl: "butlast ((pollers y)[i := ?p]) = butlast (pollers y)"
    using ph by (simp add: butlast_list_update)
  consider (go) "again" "jobId s = jobId (ui y)" "jobRef s = jobRef (ui y)"
      "isProcessing s = isProcessing (ui y)" "resultUrl s = resultUrl (ui y)"
    | (stop) "\<not> again" "jobId s = Null" "\<not> isProcessing s"
    using poll_resume_cases [OF pr] by blast
  then have r: "phase_inv (render (ui y) ?y1)"
  proof cases
    case go
    have "pollers (render (ui y) ?y1) = (pollers y)[i := ?p] \<and>
          cur (render (ui y) ?y1) = cur y"
      using go pollers_render_same [of ?y1 "ui y"] by simp
    then show ?thesis
      using go True ph bl by (simp add: phase_inv_def)
  next
    case stop
    have "spent ?p" using stop(1) by (simp add: spent_def)
    then have "list_all spent ((pollers y)[i := ?p])"
      using ph by (intro all_spent_last_update) simp_all
    then have "list_all spent (pollers (render (ui y) ?y1))"
      using stop by (intro all_spent_render_idle) simp_all
    then show ?thesis
      using stop True ph by (simp add: phase_inv_def)
  qed
  have "\<not> (truthy (jobId (ui ?y0)) \<and> truthy (resultUrl (ui ?y0)))"
    using phase_inv_exclusive [OF inv] by simp
  then have u: "phase_inv (unmount ?y0)"
    by (simp add: phase_inv_def)
  show ?thesis
    using set_state_cases [of s ?y0] r u True by auto
qed

lemma phase_inv_timer_fired:
  assumes inv: "phase_inv y" and en: "i < length (pollers y)" "ptimer (pollers y ! i) \<noteq> None"
  shows "phase_inv (y\<lparr>pollers := (pollers y)[i := (pollers y ! i)\<lparr>pfetch := True, ptimer := None\<rparr>],
                      queries := queries y @ [pjob (pollers y ! i)]\<rparr>)"
proof (cases "mounted y")
  case False
  then show ?thesis using inv by (simp add: phase_inv_def)
next
  case True
  have ns: "\<not> spent (pollers y ! i)" using en(2) by (simp add: spent_def)
  note ph = phase_inv_active [OF inv True en(1) ns]
  have "butlast ((pollers y)[i := (pollers y ! i)\<lparr>pfetch := True, ptimer := None\<rparr>]) =
        butlast (pollers y)"
    using ph by (simp add: butlast_list_update)
  then show ?thesis using True ph by (simp add: phase_inv_def)
qed

text \<open>A calm reset: the cleanup of the polling effect cancels the one pending timeout.\<close>

lemma phase_inv_clearAll:
  assumes "phase_inv y" and "mounted y" and "uploads y = 0"
    and "list_all (\<lambda>p. \<not> pfetch p) (pollers y)"
  shows "phase_inv (render (ui y) (clearAll y))"
proof -
  let ?y2 = "clearAll y"
  have ui2: "jobId (ui ?y2) = Null" "\<not> isProcessing (ui ?y2)" "uploads ?y2 = 0" "mounted ?y2"
      "pollers ?y2 = pollers y" "cur ?y2 = cur y"
    using assms(2,3) by (simp_all add: clearAll_def)
  have "list_all spent (pollers (render (ui y) ?y2))"
  proof (cases "isProcessing (ui y)")
    case False
    then have "list_all spent (pollers y)"
      using assms(1,2) by (simp add: phase_inv_def)
    then show ?thesis using ui2 by (intro all_spent_render_idle) simp_all
  next
    case True
    then have ph: "list_all spent (butlast (pollers y))" "cur y = Some (length (pollers y) - 1)"
      using assms(1,2,3) by (simp_all add: phase_inv_def)
    have r: "pollers (render (ui y) ?y2) = pollers (clearTimeout_cur ?y2)"
      using True ui2(2)
      by (simp add: render_def polling_effect_def preview_effect_def clearTimeout_cur_def Let_def
          split: option.split)
    show ?thesis
    proof (cases "pollers y = []")
      case True
      then show ?thesis by (simp add: r clearTimeout_cur_def ui2 split: option.split)
    next
      case False
      let ?i = "length (pollers y) - 1"
      have "\<not> pfetch (pollers y ! ?i)"
        using assms(4) False by (simp add: list_all_length)
      then have "spent ((pollers y ! ?i)\<lparr>ptimer := None\<rparr>)"
        by (simp add: spent_def)
      then have "list_all spent ((pollers y)[?i := (pollers y ! ?i)\<lparr>ptimer := None\<rparr>])"
        using ph(1) by (intro all_spent_last_update) simp_all
      then show ?thesis
        using False ph(2) by (simp add: r clearTimeout_cur_def ui2)
    qed
  qed
  then show ?thesis using ui2 by (simp add: phase_inv_def)
qed

lemma phase_inv_step:
  assumes "step y e = Some y'"
    and "e \<noteq> ClickClear \<or> uploads y = 0 \<and> list_all (\<lambda>p. \<not> pfetch p) (pollers y)"
    and "phase_inv y"
  shows "phase_inv y'"
proof (cases e)
  case (OnFiles files)
  with assms show ?thesis by (auto split: if_splits intro: phase_inv_onFiles)
next
  case ClickUpscale
  with assms show ?thesis by (auto split: if_splits intro: phase_inv_ClickUpscale)
next
  case ClickClear
  with assms show ?thesis by (auto split: if_splits intro: phase_inv_clearAll)
next
  case (UploadProgress ev)
  show ?thesis
  proof (cases "xhr_onprogress ev")
    case None
    with assms UploadProgress show ?thesis by (auto split: if_splits)
  next
    case (Some pct)
    have "phase_inv (set_state ((ui y)\<lparr>uploadProgress := pct\<rparr>) y)"
    proof (cases "mounted y")
      case True
      moreover have "renders ((ui y)\<lparr>uploadProgress := pct\<rparr>) \<or> \<not> renders (ui y)"
        by (rule renders_keep) simp_all
      ultimately have "set_state ((ui y)\<lparr>uploadProgress := pct\<rparr>) y =
          y\<lparr>ui := (ui y)\<lparr>uploadProgress := pct\<rparr>\<rparr>"
        by (simp add: set_state_commit render_same)
      moreover have "phase_inv (y\<lparr>ui := (ui y)\<lparr>uploadProgress := pct\<rparr>\<rparr>)"
        using assms(3) by (rule phase_inv_keep) simp_all
      ultimately show ?thesis by simp
    next
      case False
      then show ?thesis using assms(3) by (simp add: set_state_def)
    qed
    with assms UploadProgress Some show ?thesis by (auto split: if_splits)
  qed
next
  case (UploadLoad status body)
  with assms phase_inv_upload_settled [of y "xhr_onload status body"] show ?thesis
    by (auto split: if_splits)
next
  case UploadError
  with assms phase_inv_upload_settled [of y xhr_onerror] show ?thesis
    by (auto split: if_splits)
next
  case (PollSettled i outcome)
  obtain s again where pr: "poll_resume outcome (ui y) = (s, again)"
    by (cases "poll_resume outcome (ui y)")
  from assms PollSettled have en: "i < length (pollers y)" "pfetch (pollers y ! i)"
    by (auto split: if_splits)
  from assms(1) PollSettled en pr have "y' = set_state s
           (y\<lparr>pollers := (pollers y)[i := (pollers y ! i)
                \<lparr>pfetch := False, ptimer := (if again then Some POLL_INTERVAL else None)\<rparr>]\<rparr>)"
    by simp
  then show ?thesis using phase_inv_poll_settled [OF assms(3) en pr] by simp
next
  case (TimerFired i)
  from assms TimerFired have en: "i < length (pollers y)" "ptimer (pollers y ! i) \<noteq> None"
    by (auto split: if_splits)
  from assms(1) TimerFired en have "y' =
      y\<lparr>pollers := (pollers y)[i := (pollers y ! i)\<lparr>pfetch := True, ptimer := None\<rparr>],
        queries := queries y @ [pjob (pollers y ! i)]\<rparr>"
    by auto
  then show ?thesis using phase_inv_timer_fired [OF assms(3) en] by simp
next
  case Unmount
  with assms show ?thesis by (auto split: if_splits intro: phase_inv_unmount)
qed

lemma phase_inv_init: "phase_inv init_sys"
  by (simp add: phase_inv_def init_sys_def initial_def)

lemma phase_inv_exec:
  "exec y es = Some y' \<Longrightarrow> calm_resets y es \<Longrightarrow> phase_inv y \<Longrightarrow> phase_inv y'"
proof (induction es arbitrary: y)
  case Nil
  then show ?case by simp
next
  case (Cons e es)
  from Cons.prems(1) obtain y1 where s: "step y e = Some y1" and r: "exec y1 es = Some y'"
    by (auto split: option.splits)
  have c: "e \<noteq> ClickClear \<or> uploads y = 0 \<and> list_all (\<lambda>p. \<not> pfetch p) (pollers y)"
    and c1: "calm_resets y1 es"
    using Cons.prems(2) s by (simp_all del: step.simps)
  have "phase_inv y1" by (rule phase_inv_step [OF s c Cons.prems(3)])
  then show ?case by (rule Cons.IH [OF r c1])
qed

lemma calm_resets_no_reset: "ClickClear \<notin> set es \<Longrightarrow> calm_resets y es"
  by (induction es arbitrary: y) (auto split: option.split simp del: step.simps)

lemma phase_inv_idle:
  "phase_inv y \<Longrightarrow> mounted y \<Longrightarrow> \<not> isProcessing (ui y) \<Longrightarrow> idle y"
  by (simp add: phase_inv_def idle_def)

lemma onFiles_keeps:
  "jobId (ui (onFiles files y)) = jobId (ui y) \<and>
   isProcessing (ui (onFiles files y)) = isProcessing (ui y) \<and>
   jobRef (ui (onFiles files y)) = jobRef (ui y) \<and>
   uploads (onFiles files y) = uploads y \<and> pollers (onFiles files y) = pollers y \<and>
   queries (onFiles files y) = queries y \<and> mounted (onFiles files y) = mounted y"
  using onFiles_cases [of files y] by auto

lemma idle_step:
  assumes "step y e = Some y'" and "e \<noteq> ClickUpscale" and "idle y"
  shows "idle y' \<and> queries y' = queries y"
proof (cases e)
  case (OnFiles files)
  with assms(1) have m: "mounted y" and y': "y' = render (ui y) (onFiles files y)"
    by (auto split: if_splits)
  have "render (ui y) (onFiles files y) =
        preview_effect (ui y) (onFiles files y)"
    using onFiles_keeps [of files y] by (simp add: render_def polling_effect_def)
  then show ?thesis
    using assms(3) m onFiles_keeps [of files y]
    by (simp add: y' idle_def preview_effect_def)
next
  case ClickUpscale
  with assms show ?thesis by simp
next
  case ClickClear
  with assms(1) have m: "mounted y" and y': "y' = render (ui y) (clearAll y)"
    by (auto split: if_splits)
  have "render (ui y) (clearAll y) = preview_effect (ui y) (clearAll y)"
    using assms(3) m by (simp add: render_def polling_effect_def clearAll_def idle_def)
  then show ?thesis
    using assms(3) m by (simp add: y' idle_def preview_effect_def clearAll_def)
next
  case (UploadProgress ev)
  with assms show ?thesis by (simp add: idle_def)
next
  case (UploadLoad status body)
  with assms show ?thesis by (simp add: idle_def)
next
  case UploadError
  with assms show ?thesis by (simp add: idle_def)
next
  case (PollSettled i outcome)
  with assms(1) have "i < length (pollers y)" "pfetch (pollers y ! i)"
    by (auto split: if_splits)
  with assms(3) show ?thesis by (auto simp: idle_def list_all_length spent_def)
next
  case (TimerFired i)
  with assms(1) have "i < length (pollers y)" "ptimer (pollers y ! i) \<noteq> None"
    by (auto split: if_splits)
  with assms(3) show ?thesis by (auto simp: idle_def list_all_length spent_def)
next
  case Unmount
  with assms(1) have y': "y' = unmount y" by (auto split: if_splits)
  have "list_all spent (pollers (clearTimeout_cur
          (y\<lparr>urllog := revoke_preview (previewUrl (ui y)) (urllog y)\<rparr>)))"
    using assms(3) by (intro all_spent_clearTimeout_cur) (simp add: idle_def)
  then show ?thesis using assms(3) by (simp add: y' unmount_def idle_def)
qed

lemma idle_exec:
  "exec y es = Some y' \<Longrightarrow> ClickUpscale \<notin> set es \<Longrightarrow> idle y \<Longrightarrow>
   idle y' \<and> queries y' = queries y"
proof (induction es arbitrary: y)
  case Nil
  then show ?case by simp
next
  case (Cons e es)
  from Cons.prems obtain y1 where s: "step y e = Some y1" and r: "exec y1 es = Some y'"
    by (auto split: option.splits)
  have "idle y1 \<and> queries y1 = queries y"
    using Cons.prems(2,3) by (intro idle_step [OF s]) auto
  then show ?case using Cons.IH [OF r] Cons.prems(2) by simp
qed

lemma quiet_after_stop:
  assumes "exec init_sys es0 = Some y" and "calm_resets init_sys es0"
    and "step y e = Some y'" and "e \<noteq> ClickClear" and "mounted y'"
    and "\<not> isProcessing (ui y')"
    and "exec y' es = Some y''" and "ClickUpscale \<notin> set es"
  shows "queries y'' = queries y'"
proof -
  have p: "phase_inv y"
    using phase_inv_exec [OF assms(1,2) phase_inv_init] .
  have "phase_inv y'" using assms(4) by (intro phase_inv_step [OF assms(3) _ p]) simp
  then have "idle y'" using assms(5,6) by (rule phase_inv_idle)
  then show ?thesis using idle_exec [OF assms(7,8)] by simp
qed
section \<open>Rounding to a double\<close>

lemma pow2_powi: "pow2 k = 2 powi k"
  by (simp add: pow2_def power_int_def power_one_over inverse_eq_divide)

lemma pow2_pos [simp]: "0 < pow2 k"
  by (simp add: pow2_powi)

lemma pow2_add: "pow2 (i + j) = pow2 i * pow2 j"
  by (simp add: pow2_powi power_int_add)

lemma pow2_mono: "i \<le> j \<Longrightarrow> pow2 i \<le> pow2 j"
  by (simp add: pow2_powi power_int_increasing)

lemma pow2_less_imp: "pow2 i < pow2 j \<Longrightarrow> i < j"
  using pow2_mono [of j i] by (cases "i < j") auto

lemma pow2_nat: "pow2 (int n) = 2 ^ n"
  by (simp add: pow2_def)

lemma pow2_cancel [simp]: "pow2 (a - b) * pow2 (b - a) = 1"
  using pow2_add [of "a - b" "b - a"] by (simp add: pow2_def)

lemma pow2_half: "pow2 (k - 1) = pow2 k / 2"
  using pow2_add [of "k - 1" 1] by (simp add: pow2_def)

lemma round_half_even_error: "\<bar>of_int (round_half_even m) - m\<bar> \<le> 1 / 2"
proof -
  have "of_int \<lfloor>m\<rfloor> \<le> m" and "m < of_int \<lfloor>m\<rfloor> + 1"
    by linarith+
  then show ?thesis
    unfolding round_half_even_def Let_def by (simp add: abs_if; linarith)
qed

lemma round_half_even_of_int [simp]: "round_half_even (of_int z) = z"
  by (simp add: round_half_even_def)

lemma round_half_even_nonneg: "0 \<le> m \<Longrightarrow> 0 \<le> round_half_even m"
  by (auto simp: round_half_even_def Let_def)

lemma fl_nonneg: "0 \<le> fl q"
  by (auto simp: fl_def Let_def intro!: mult_nonneg_nonneg round_half_even_nonneg
      less_imp_le [OF pow2_pos])

lemma fl_error_expo:
  assumes "0 < q"
  shows "\<bar>fl q - q\<bar> \<le> pow2 (expo q - 53)"
proof -
  let ?e = "expo q"
  let ?m = "q * pow2 (52 - ?e)"
  let ?r = "of_int (round_half_even ?m) :: rat"
  have q: "q = ?m * pow2 (?e - 52)"
    by (simp add: mult.assoc)
  have "fl q - q = (?r - ?m) * pow2 (?e - 52)"
    using assms by (simp add: fl_def Let_def algebra_simps)
  then have "\<bar>fl q - q\<bar> = \<bar>?r - ?m\<bar> * pow2 (?e - 52)"
    by (simp add: abs_mult abs_of_pos)
  also have "\<dots> \<le> 1 / 2 * pow2 (?e - 52)"
    by (intro mult_right_mono round_half_even_error less_imp_le [OF pow2_pos])
  also have "\<dots> = pow2 (?e - 53)"
    using pow2_half [of "?e - 52"] by simp
  finally show ?thesis .
qed

lemma pow2_diff: "pow2 (i - j) = pow2 i / pow2 j"
  by (simp add: pow2_powi power_int_diff)

lemma pow2_neg_nat: "pow2 (- int k) = 1 / 2 ^ k"
  by (simp add: pow2_powi power_int_minus field_simps)

lemma expo_lower:
  assumes "0 < q"
  shows "pow2 (expo q) \<le> q"
proof (cases "1 \<le> q")
  case True
  let ?n = "nat \<lfloor>q\<rfloor>"
  have n: "0 < ?n" using True by simp
  then have l: "0 < floorlog 2 ?n" by (simp add: floorlog_def)
  have "2 ^ (floorlog 2 ?n - 1) \<le> ?n"
    using floorlog_bounds [of ?n 2] n by simp
  then have a: "(of_nat (2 ^ (floorlog 2 ?n - 1)) :: rat) \<le> of_nat ?n"
    by (simp only: of_nat_le_iff)
  have b: "(of_nat ?n :: rat) \<le> q"
    using True by (simp add: of_nat_nat)
  have eq: "int (floorlog 2 ?n) - 1 = int (floorlog 2 ?n - 1)"
    using l by simp
  have e: "expo q = int (floorlog 2 ?n) - 1"
    using True by (simp add: expo_def)
  have c: "pow2 (expo q) = of_nat (2 ^ (floorlog 2 ?n - 1))"
    by (simp only: e eq pow2_nat of_nat_power of_nat_numeral)
  show ?thesis unfolding c using a b by (rule order_trans)
next
  case False
  let ?m = "nat \<lceil>1 / q\<rceil>"
  let ?k = "floorlog 2 (?m - 1)"
  have "1 < 1 / q" using assms False by simp
  then have c: "2 \<le> \<lceil>1 / q\<rceil>" by (simp add: less_ceiling_iff)
  then have m: "0 < ?m - 1" by simp
  have "?m - 1 < 2 ^ ?k"
    using floorlog_bounds [of "?m - 1" 2] m by simp
  then have "?m \<le> 2 ^ ?k" using m by linarith
  then have a: "(of_nat ?m :: rat) \<le> of_nat (2 ^ ?k)" by (simp only: of_nat_le_iff)
  have b: "1 / q \<le> of_nat ?m"
    using c by (simp add: of_nat_nat le_of_int_ceiling)
  have "1 / q \<le> of_nat (2 ^ ?k)" using b a by (rule order_trans)
  then have "1 / q \<le> 2 ^ ?k" by (simp only: of_nat_power of_nat_numeral)
  then have "1 / 2 ^ ?k \<le> q"
    using assms by (simp add: field_simps)
  moreover have "expo q = - int ?k"
    using False by (simp add: expo_def)
  then have "pow2 (expo q) = 1 / 2 ^ ?k"
    by (simp only: pow2_neg_nat)
  ultimately show ?thesis by simp
qed

lemma expo_upper: "0 < q \<Longrightarrow> q < pow2 k \<Longrightarrow> expo q < k"
  using expo_lower [of q] by (intro pow2_less_imp) simp

lemma fl_error:
  assumes "0 \<le> q" and "q < pow2 k"
  shows "\<bar>fl q - q\<bar> \<le> pow2 (k - 54)"
proof (cases "q = 0")
  case True
  then show ?thesis by (simp add: fl_def less_imp_le)
next
  case False
  with assms have q: "0 < q" by simp
  have "expo q - 53 \<le> k - 54" using expo_upper [OF q assms(2)] by simp
  then have "pow2 (expo q - 53) \<le> pow2 (k - 54)" by (rule pow2_mono)
  with fl_error_expo [OF q] show ?thesis by simp
qed

lemma fl_of_nat:
  assumes "n < 2 ^ 53"
  shows "fl (of_nat n) = of_nat n"
proof (cases "n = 0")
  case True
  then show ?thesis by (simp add: fl_def)
next
  case False
  let ?q = "of_nat n :: rat"
  have q: "0 < ?q" using False by simp
  have "?q < pow2 53" using assms by (simp add: pow2_def of_nat_less_numeral_power_cancel_iff)
  then have e: "expo ?q < 53" using q by (intro expo_upper)
  define d where "d = nat (52 - expo ?q)"
  have d: "pow2 (52 - expo ?q) = 2 ^ d" using e by (simp add: pow2_def d_def)
  have "?q * pow2 (52 - expo ?q) = of_int (int n * 2 ^ d)"
    by (simp add: d)
  then have "round_half_even (?q * pow2 (52 - expo ?q)) = int n * 2 ^ d"
    by (simp only: round_half_even_of_int)
  then have "fl ?q = of_int (int n * 2 ^ d) * pow2 (expo ?q - 52)"
    using q by (simp add: fl_def Let_def)
  also have "\<dots> = ?q * (pow2 (52 - expo ?q) * pow2 (expo ?q - 52))"
    by (simp add: d)
  finally show ?thesis by simp
qed

lemma progress_value:
  assumes "0 < t" and "s \<le> t" and "t < 2 ^ 53"
  shows "Math_round (js_times100 (js_div s t)) =
           Fin (of_int \<lfloor>fl (fl (of_nat s / of_nat t) * 100) + 1 / 2\<rfloor>)"
proof -
  have "s < 2 ^ 53" using assms by simp
  then have "fl (of_nat s) = of_nat s" and "fl (of_nat t) = of_nat t"
    using assms(3) by (simp_all add: fl_of_nat)
  then show ?thesis using assms(1) by (simp add: js_div_def)
qed

lemma two_step_error:
  fixes q a x d1 d2 :: rat
  assumes "\<bar>a - q\<bar> \<le> d1" and "\<bar>x - a * 100\<bar> \<le> d2"
  shows "\<bar>x - q * 100\<bar> \<le> 100 * d1 + d2"
  using assms by linarith

lemma floor_half_bounds:
  fixes x v d :: rat
  assumes "\<bar>x - v\<bar> \<le> d" and "d < 1 / 2"
  shows "\<lfloor>x + 1 / 2\<rfloor> = \<lfloor>v\<rfloor> \<or> \<lfloor>x + 1 / 2\<rfloor> = \<lfloor>v\<rfloor> + 1"
    and "\<bar>of_int \<lfloor>x + 1 / 2\<rfloor> - v\<bar> \<le> 1 / 2 + d"
proof -
  have p1: "of_int \<lfloor>x + 1 / 2\<rfloor> \<le> x + 1 / 2" and p2: "x + 1 / 2 < of_int \<lfloor>x + 1 / 2\<rfloor> + 1"
    by linarith+
  have f1: "of_int \<lfloor>v\<rfloor> \<le> v" and f2: "v < of_int \<lfloor>v\<rfloor> + 1"
    by linarith+
  have "(of_int (\<lfloor>v\<rfloor> - 1) :: rat) < of_int \<lfloor>x + 1 / 2\<rfloor>"
    using assms p2 f1 by simp linarith
  then have lo: "\<lfloor>v\<rfloor> - 1 < \<lfloor>x + 1 / 2\<rfloor>" by (simp only: of_int_less_iff)
  have "(of_int \<lfloor>x + 1 / 2\<rfloor> :: rat) < of_int (\<lfloor>v\<rfloor> + 2)"
    using assms p1 f2 by simp linarith
  then have hi: "\<lfloor>x + 1 / 2\<rfloor> < \<lfloor>v\<rfloor> + 2" by (simp only: of_int_less_iff)
  show "\<lfloor>x + 1 / 2\<rfloor> = \<lfloor>v\<rfloor> \<or> \<lfloor>x + 1 / 2\<rfloor> = \<lfloor>v\<rfloor> + 1"
    using lo hi by linarith
  show "\<bar>of_int \<lfloor>x + 1 / 2\<rfloor> - v\<bar> \<le> 1 / 2 + d"
    using assms(1) p1 p2 by linarith
qed

lemma floor_half_upper:
  fixes x v d :: rat
  assumes "\<bar>x - v\<bar> \<le> d" and "d < 1 / 2" and "v \<le> of_int c"
  shows "\<lfloor>x + 1 / 2\<rfloor> \<le> c"
proof -
  have "of_int \<lfloor>x + 1 / 2\<rfloor> \<le> x + 1 / 2" by linarith
  then have "(of_int \<lfloor>x + 1 / 2\<rfloor> :: rat) < of_int (c + 1)"
    using assms by simp linarith
  then have "\<lfloor>x + 1 / 2\<rfloor> < c + 1" by (simp only: of_int_less_iff)
  then show ?thesis by simp
qed

lemma progress_error:
  assumes "0 < t" and "s \<le> t"
  shows "\<bar>fl (fl (of_nat s / of_nat t) * 100) - of_nat s / of_nat t * 100\<bar> \<le> 1 / 2 ^ 45"
    and "0 \<le> fl (fl (of_nat s / of_nat t) * 100)"
proof -
  let ?q = "of_nat s / of_nat t :: rat"
  have q: "0 \<le> ?q" "?q \<le> 1" using assms by simp_all
  then have "?q < pow2 1" by (simp add: pow2_def)
  then have "\<bar>fl ?q - ?q\<bar> \<le> pow2 (1 - 54)" by (rule fl_error [OF q(1)])
  then have e1: "\<bar>fl ?q - ?q\<bar> \<le> 1 / 2 ^ 53" by (simp add: pow2_def)
  have n1: "0 \<le> fl ?q * 100" using fl_nonneg [of ?q] by simp
  have p7: "pow2 7 = 128" by (simp add: pow2_def)
  have tiny: "(1::rat) / 2 ^ 53 \<le> 1 / 100" by simp
  have "fl ?q \<le> ?q + 1 / 2 ^ 53" using e1 by linarith
  then have "fl ?q \<le> 1 + 1 / 100" using q(2) tiny by linarith
  then have "fl ?q * 100 < pow2 7" unfolding p7 by linarith
  then have "\<bar>fl (fl ?q * 100) - fl ?q * 100\<bar> \<le> pow2 (7 - 54)" by (rule fl_error [OF n1])
  then have e2: "\<bar>fl (fl ?q * 100) - fl ?q * 100\<bar> \<le> 1 / 2 ^ 47" by (simp add: pow2_def)
  have sum: "100 * ((1::rat) / 2 ^ 53) + 1 / 2 ^ 47 \<le> 1 / 2 ^ 45" by simp
  show "\<bar>fl (fl ?q * 100) - ?q * 100\<bar> \<le> 1 / 2 ^ 45"
    using two_step_error [OF e1 e2] sum by (rule order_trans)
  show "0 \<le> fl (fl ?q * 100)" by (rule fl_nonneg)
qed

lemma floor_rat_numeral: "\<lfloor>numeral a / numeral b :: rat\<rfloor> = numeral a div numeral b"
  by (metis floor_divide_of_int_eq of_int_numeral)

lemma ceiling_rat_numeral: "\<lceil>numeral a / numeral b :: rat\<rceil> = - (- numeral a div numeral b)"
  using ceiling_divide_eq_div [of "numeral a" "numeral b", where ?'a = rat] by simp

lemmas fl_eval = fl_def expo_def pow2_def round_half_even_def Let_def compute_floorlog
  js_div_def xhr_onprogress_def floor_rat_numeral ceiling_rat_numeral

section \<open>What is on the page can be rendered\<close>

text \<open>
  A mounted component is in a state that was rendered. So in a state that can be reached,
  \<open>set_state\<close> commits the update exactly when the new state can be rendered.
\<close>

lemma renders_set_state:
  "mounted y \<longrightarrow> renders (ui y) \<Longrightarrow>
   mounted (set_state s y) \<longrightarrow> renders (ui (set_state s y))"
  by (auto simp: set_state_def)

lemma renders_step:
  assumes "step y e = Some y'" and "mounted y \<longrightarrow> renders (ui y)"
  shows "mounted y' \<longrightarrow> renders (ui y')"
proof (cases e)
  case (OnFiles files)
  with assms show ?thesis
    by (auto simp: onFiles_def renders_def Let_def split: option.splits list.splits if_splits)
next
  case ClickUpscale
  with assms show ?thesis
    by (auto simp: startUpscale_def startUpscale_begin_def renders_def
        split: option.splits if_splits)
next
  case ClickClear
  with assms show ?thesis
    by (auto simp: clearAll_def renders_def split: if_splits)
next
  case (UploadProgress ev)
  with assms renders_set_state [of y] show ?thesis
    by (auto split: if_splits option.splits)
next
  case (UploadLoad status body)
  with assms renders_set_state [of "y\<lparr>uploads := uploads y - 1\<rparr>"] show ?thesis
    by (auto split: if_splits)
next
  case UploadError
  with assms renders_set_state [of "y\<lparr>uploads := uploads y - 1\<rparr>"] show ?thesis
    by (auto split: if_splits)
next
  case (PollSettled i outcome)
  obtain s again where pr: "poll_resume outcome (ui y) = (s, again)"
    by (cases "poll_resume outcome (ui y)")
  let ?y1 = "y\<lparr>pollers := (pollers y)[i := (pollers y ! i)
               \<lparr>pfetch := False, ptimer := (if again then Some POLL_INTERVAL else None)\<rparr>]\<rparr>"
  have "mounted (set_state s ?y1) \<longrightarrow> renders (ui (set_state s ?y1))"
    using assms(2) by (intro renders_set_state) simp
  with assms(1) PollSettled pr show ?thesis by (auto split: if_splits)
next
  case (TimerFired i)
  with assms show ?thesis by (auto split: if_splits)
next
  case Unmount
  with assms show ?thesis by (auto split: if_splits)
qed

lemma renders_exec:
  "exec y es = Some y' \<Longrightarrow> mounted y \<longrightarrow> renders (ui y) \<Longrightarrow> mounted y' \<longrightarrow> renders (ui y')"
proof (induction es arbitrary: y)
  case Nil
  then show ?case by simp
next
  case (Cons e es)
  from Cons.prems(1) obtain y1 where s: "step y e = Some y1" and r: "exec y1 es = Some y'"
    by (auto split: option.splits)
  have "mounted y1 \<longrightarrow> renders (ui y1)" by (rule renders_step [OF s Cons.prems(2)])
  then show ?case by (rule Cons.IH [OF r])
qed

lemma renders_reachable:
  assumes "exec init_sys es = Some y" and "mounted y"
  shows "renders (ui y)"
  using renders_exec [OF assms(1)] assms(2)
  by (simp add: init_sys_def initial_def renders_def)

lemma set_state_reachable:
  assumes "exec init_sys es = Some y" and "mounted y"
  shows "set_state s y = (if renders s then render (ui y) (y\<lparr>ui := s\<rparr>) else unmount y)"
  using renders_reachable [OF assms] assms(2) by (simp add: set_state_def)
section \<open>Job, result and message\<close>

text \<open>
  C1, as the code has it. The message is a status line and is not exclusive with the
  other two: the successful-upload branch sets the job together with a message. What
  holds is this. In every state of a session in which each reset is made while no upload
  and no status query is in flight, a job and a result are never both set; and when
  \<^verbatim>\<open>startUpscale\<close> runs in such a state it leaves the message empty and result and
  job unset, with the processing flag raised, before the transfer.
\<close>

theorem C1_outcomes:
  assumes "exec init_sys es = Some y" and "calm_resets init_sys es"
  shows "\<not> (truthy (jobId (ui y)) \<and> truthy (resultUrl (ui y))) \<and>
         (\<forall>y'. step y ClickUpscale = Some y' \<longrightarrow>
            message (ui y') = Str [] \<and> resultUrl (ui y') = Null \<and> jobId (ui y') = Null \<and>
            isProcessing (ui y'))"
proof -
  have inv: "phase_inv y"
    using phase_inv_exec [OF assms phase_inv_init] .
  have a: "\<not> (truthy (jobId (ui y)) \<and> truthy (resultUrl (ui y)))"
    using inv by (rule phase_inv_exclusive)
  have b: "message (ui y') = Str [] \<and> resultUrl (ui y') = Null \<and> jobId (ui y') = Null \<and>
           isProcessing (ui y')" if "step y ClickUpscale = Some y'" for y'
  proof -
    from that have en: "mounted y" "cfile (ui y) \<noteq> None" "\<not> isProcessing (ui y)"
      and y': "y' = render (ui y) (startUpscale y)"
      by (auto split: if_splits)
    from inv en have "jobId (ui y) = Null" by (simp add: phase_inv_def)
    then show ?thesis
      using en(2) by (auto simp: y' startUpscale_def startUpscale_begin_def)
  qed
  show ?thesis using a b by blast
qed

theorem C1_outcomes_witness:
  "calm_resets init_sys reset_session \<and>
   exec init_sys reset_session = Some reset_session_end \<and>
   \<not> truthy (jobId (ui reset_session_end)) \<and>
   resultUrl (ui reset_session_end) = Str ''https://x/out.mp4'' \<and>
   map_option (\<lambda>y. (message (ui y), resultUrl (ui y), jobId (ui y), isProcessing (ui y)))
     (step reset_session_end ClickUpscale) = Some (Str [], Null, Null, True)"
  using C1_outcomes [of reset_session reset_session_end]
  by (simp add: reset_session_def reset_session_end_def run_defs uploading_state_def
      sample_file_def)

text \<open>
  The claim as stated fails: after a successful upload answered with a job, the job and the
  message are both set.
\<close>

theorem C1_job_and_message_counterexample:
  "map_option (jobId \<circ> ui)
     (exec init_sys
        [OnFiles (Some [\<lparr>fname = ''a.png'', fsize = 10, ftype = ''image/png''\<rparr>]),
         ClickUpscale,
         UploadLoad 200 (Some (Obj [(''jobId'', Str ''abc123'')]))]) = Some (Str ''abc123'') \<and>
   map_option (message \<circ> ui)
     (exec init_sys
        [OnFiles (Some [\<lparr>fname = ''a.png'', fsize = 10, ftype = ''image/png''\<rparr>]),
         ClickUpscale,
         UploadLoad 200 (Some (Obj [(''jobId'', Str ''abc123'')]))]) =
     Some (Str ''File uploaded. Processing started...'') \<and>
   truthy (Str ''abc123'') \<and> truthy (Str ''File uploaded. Processing started...'')"
  by (simp add: run_defs)

text \<open>
  The hypothesis on the resets is used: in the session below the reset is made while an
  upload is in flight, and the two uploads that follow it are answered one with a result
  and one with a job.
\<close>

lemma reset_race_sets_job_and_result:
  "map_option ui
     (exec init_sys
        [OnFiles (Some [sample_file]), ClickUpscale, ClickClear,
         OnFiles (Some [sample_file]), ClickUpscale,
         UploadLoad 200 (Some (Obj [(''resultUrl'', Str ''https://x/out.mp4'')])),
         UploadLoad 200 (Some (Obj [(''jobId'', Str ''abc123'')]))]) =
     Some (initial
       \<lparr> cfile := Some sample_file, fileType := Some Image, previewUrl := Some 1,
         message := Str ''File uploaded. Processing started...'',
         jobId := Str ''abc123'', resultUrl := Str ''https://x/out.mp4'' \<rparr>)"
  by (simp add: run_defs sample_file_def)

section \<open>The upload percentage\<close>

text \<open>
  C2, as the code has it. The percentage is \<^verbatim>\<open>Math.round((loaded / total) * 100)\<close>
  in double arithmetic, not a floor. For a measurable event with
  \<open>loaded \<le> total\<close> and \<open>0 < total < 2^53\<close> the callback receives the integer nearest
  to the computed product (a half going up). That integer is
  \<open>\<lfloor>100 loaded / total\<rfloor>\<close> or one more, lies within \<open>1/2 + 2^-45\<close> of the exact
  \<open>100 loaded / total\<close>, and is between 0 and 100.
\<close>

theorem C2_progress_percentage:
  assumes "lengthComputable ev" and "0 < total ev" and "loaded ev \<le> total ev"
    and "total ev < 2 ^ 53"
  shows "\<exists>p. xhr_onprogress ev = Some (Fin (of_int p)) \<and>
           p = \<lfloor>fl (fl (of_nat (loaded ev) / of_nat (total ev)) * 100) + 1 / 2\<rfloor> \<and>
           (p = \<lfloor>of_nat (loaded ev) / of_nat (total ev) * 100 :: rat\<rfloor> \<or>
            p = \<lfloor>of_nat (loaded ev) / of_nat (total ev) * 100 :: rat\<rfloor> + 1) \<and>
           \<bar>of_int p - of_nat (loaded ev) / of_nat (total ev) * 100 :: rat\<bar> \<le> 1 / 2 + 1 / 2 ^ 45 \<and>
           0 \<le> p \<and> p \<le> 100"
proof -
  let ?q = "of_nat (loaded ev) / of_nat (total ev) :: rat"
  let ?x = "fl (fl ?q * 100)"
  let ?p = "\<lfloor>?x + 1 / 2\<rfloor>"
  have val: "xhr_onprogress ev = Some (Fin (of_int ?p))"
    using assms by (simp add: xhr_onprogress_def progress_value)
  have err: "\<bar>?x - ?q * 100\<bar> \<le> 1 / 2 ^ 45" and nn: "0 \<le> ?x"
    using progress_error [OF assms(2,3)] by simp_all
  have tiny: "(1::rat) / 2 ^ 45 < 1 / 2" by simp
  note fb = floor_half_bounds [OF err tiny]
  have "?q \<le> 1" using assms(2,3) by simp
  then have "?q * 100 \<le> 1 * 100" by (rule mult_right_mono) simp
  then have v: "?q * 100 \<le> 100" by simp
  have "0 \<le> ?p" using nn by simp
  moreover have "?p \<le> 100"
    using v by (intro floor_half_upper [OF err tiny]) simp
  ultimately have rg: "0 \<le> ?p \<and> ?p \<le> 100" by simp
  show ?thesis using val fb rg by blast
qed

theorem C2_progress_percentage_witness:
  "xhr_onprogress \<lparr>lengthComputable = True, loaded = 29, total = 200\<rparr> = Some (Fin 14) \<and>
   \<lfloor>of_nat 29 / of_nat 200 * 100 :: rat\<rfloor> = 14"
  using C2_progress_percentage [of "\<lparr>lengthComputable = True, loaded = 29, total = 200\<rparr>"]
  by (simp add: fl_eval)

text \<open>
  The claim as stated fails: 2 bytes of 3 are reported as 67 per cent, and the floor is 66.
\<close>

theorem C2_round_not_floor_counterexample:
  "xhr_onprogress \<lparr>lengthComputable = True, loaded = 2, total = 3\<rparr> = Some (Fin 67) \<and>
   \<lfloor>of_nat 2 / of_nat 3 * 100 :: rat\<rfloor> = 66"
  by (simp add: fl_eval)

section \<open>Transfer: an immediate result\<close>

text \<open>
  C3. When the upload is answered with a success status and a response that carries a
  result reference (a truthy \<^verbatim>\<open>resultUrl\<close>) and no job identifier (\<^verbatim>\<open>jobId\<close>
  missing or falsy), the result reference is stored, the processing flag is cleared, and
  no tracking phase is entered: the step issues no status query and starts no poller, and
  with the flag cleared the guard of the polling effect is false. In a session without
  reset no status query is issued afterwards either, whatever happens, until the upscale
  button is clicked again.
\<close>

theorem C3_immediate_result:
  assumes "200 \<le> status" and "status < 300" and "0 < uploads y" and "mounted y"
    and "truthy (field resp ''resultUrl'')" and "\<not> truthy (field resp ''jobId'')"
  shows "\<exists>y'. step y (UploadLoad status (Some resp)) = Some y' \<and>
           resultUrl (ui y') = field resp ''resultUrl'' \<and>
           \<not> isProcessing (ui y') \<and>
           queries y' = queries y \<and>
           length (pollers y') = length (pollers y) \<and>
           (\<forall>es0 es y''. exec init_sys es0 = Some y \<longrightarrow> ClickClear \<notin> set es0 \<longrightarrow>
              exec y' es = Some y'' \<longrightarrow> ClickUpscale \<notin> set es \<longrightarrow>
              queries y'' = queries y)"
proof -
  have nn: "\<not> nullish resp"
    using assms(5) by (rule truthy_field_not_nullish)
  let ?s = "(ui y)\<lparr>resultUrl := field resp ''resultUrl'', isProcessing := False\<rparr>"
  let ?y1 = "y\<lparr>uploads := uploads y - 1, ui := ?s\<rparr>"
  define y' where "y' = render (ui y) ?y1"
  have r: "startUpscale_resume (xhr_onload status (Some resp)) (ui y) = ?s"
    using assms nn by (simp add: xhr_onload_def startUpscale_resume_def)
  have "renders ?s \<or> \<not> renders (ui y)"
    by (rule renders_keep) simp_all
  then have st: "step y (UploadLoad status (Some resp)) = Some y'"
    using assms(3,4) by (simp add: r set_state_commit y'_def)
  have "\<not> (truthy (jobId (ui ?y1)) \<and> isProcessing (ui ?y1))"
    by simp
  then have q: "queries y' = queries y" "length (pollers y') = length (pollers y)"
    using render_idle [of ?y1 "ui y"] by (simp_all add: y'_def)
  have ru: "resultUrl (ui y') = field resp ''resultUrl''"
    by (simp add: y'_def)
  have m: "mounted y'" "\<not> isProcessing (ui y')"
    using assms(4) by (simp_all add: y'_def)
  have later: "queries y'' = queries y"
    if "exec init_sys es0 = Some y" "ClickClear \<notin> set es0"
       "exec y' es = Some y''" "ClickUpscale \<notin> set es" for es0 es y''
    using quiet_after_stop [OF that(1) calm_resets_no_reset [OF that(2)] st _ m that(3,4)] q(1)
    by simp
  show ?thesis
    using st ru m(2) q later by blast
qed

theorem C3_immediate_result_witness:
  "\<exists>y'. step uploading_state
           (UploadLoad 200 (Some (Obj [(''resultUrl'', Str ''https://x/out.mp4'')]))) = Some y' \<and>
      resultUrl (ui y') = Str ''https://x/out.mp4'' \<and> \<not> isProcessing (ui y') \<and>
      queries y' = [] \<and> pollers y' = []"
  using C3_immediate_result
          [of 200 uploading_state "Obj [(''resultUrl'', Str ''https://x/out.mp4'')]"]
  by (simp add: uploading_state_def run_defs)

section \<open>Completion tracking: terminal statuses\<close>

text \<open>
  What a terminal answer does. When a status query of poller \<open>i\<close> is answered with
  status \<^verbatim>\<open>done\<close>, the response's \<^verbatim>\<open>resultUrl\<close> becomes the result and the job
  is cleared; with status \<^verbatim>\<open>failed\<close>, the message becomes the response's
  \<^verbatim>\<open>error\<close>, or the text ``Processing failed on server'' when there is none, and the
  job is cleared. Either way the processing flag is cleared, the step issues no query and
  starts no poller, and in every later state this poller has no query in flight and no
  timeout pending. This needs an answer that can be rendered: a progress that is not an
  object and, with \<^verbatim>\<open>failed\<close>, an error that is not an object. In a session whose
  resets are calm no status query at all is issued afterwards, until the upscale button
  is clicked again.
\<close>

lemma terminal_status_recorded:
  assumes "i < length (pollers y)" and "pfetch (pollers y ! i)" and "mounted y"
    and "field data ''status'' = Str ''done'' \<or> field data ''status'' = Str ''failed''"
    and "renderable (field data ''progress'')"
    and "field data ''status'' = Str ''failed'' \<longrightarrow> renderable (field data ''error'')"
  shows "\<exists>y'. step y (PollSettled i (Response True (Some data))) = Some y' \<and>
           (if field data ''status'' = Str ''done''
            then resultUrl (ui y') = field data ''resultUrl'' \<and> message (ui y') = message (ui y)
            else message (ui y') =
                   (if truthy (field data ''error'') then field data ''error''
                    else Str ''Processing failed on server'') \<and>
                 resultUrl (ui y') = resultUrl (ui y)) \<and>
           jobId (ui y') = Null \<and> \<not> isProcessing (ui y') \<and>
           queries y' = queries y \<and> length (pollers y') = length (pollers y) \<and>
           (\<forall>es y''. exec y' es = Some y'' \<longrightarrow> dead y'' i) \<and>
           (\<forall>es0 es y''. exec init_sys es0 = Some y \<longrightarrow> calm_resets init_sys es0 \<longrightarrow>
              exec y' es = Some y'' \<longrightarrow> ClickUpscale \<notin> set es \<longrightarrow>
              queries y'' = queries y)"
proof -
  obtain y' where y': "step y (PollSettled i (Response True (Some data))) = Some y'"
      "queries y' = queries y" "length (pollers y') = length (pollers y)" "dead y' i"
    using step_terminal [OF assms(1,2,4)] by blast
  have u: "ui y' = fst (poll_resume (Response True (Some data)) (ui y))" and m: "mounted y'"
    using step_terminal_ui [OF assms y'(1)] by simp_all
  have later: "\<forall>es y''. exec y' es = Some y'' \<longrightarrow> dead y'' i"
    using dead_exec [OF _ y'(4)] by blast
  have fields: "(if field data ''status'' = Str ''done''
            then resultUrl (ui y') = field data ''resultUrl'' \<and> message (ui y') = message (ui y)
            else message (ui y') =
                   (if truthy (field data ''error'') then field data ''error''
                    else Str ''Processing failed on server'') \<and>
                 resultUrl (ui y') = resultUrl (ui y)) \<and>
           jobId (ui y') = Null \<and> \<not> isProcessing (ui y')"
    using assms(4) poll_resume_terminal [OF assms(4), of "ui y"]
    by (auto simp: u js_or_def)
  have quiet: "queries y'' = queries y"
    if "exec init_sys es0 = Some y" "calm_resets init_sys es0"
       "exec y' es = Some y''" "ClickUpscale \<notin> set es" for es0 es y''
    using quiet_after_stop [OF that(1,2) y'(1) _ m _ that(3,4)] fields y'(2) by simp
  show ?thesis using y'(1,2,3) later fields quiet by blast
qed

text \<open>
  C4. After a terminal answer no further status query is to be issued for the job. The
  code issues one in the session \<open>overlap_session\<close>. Two pollers of the job
  \<^verbatim>\<open>abc123\<close> are at work there: the first was started when the first upload was
  answered, the second when the upscale button was clicked with the job still set. The
  first poller is answered \<^verbatim>\<open>processing\<close> after the cleanup of its run of the
  polling effect, so the timeout it sets is never cleared. The second poller is answered
  \<^verbatim>\<open>done\<close>: the result is recorded and the job cleared, two queries having been
  issued. Then the timeout of the first poller fires, and a third query for
  \<^verbatim>\<open>abc123\<close> is issued.
\<close>

theorem C4_stale_poller_queries_after_done:
  "map_option (\<lambda>y. (resultUrl (ui y), jobId (ui y), isProcessing (ui y), queries y))
     (exec init_sys overlap_session) =
     Some (Str ''https://x/u.png'', Null, False, [Str ''abc123'', Str ''abc123'']) \<and>
   map_option queries (exec init_sys (overlap_session @ [TimerFired 0])) =
     Some [Str ''abc123'', Str ''abc123'', Str ''abc123'']"
  by (simp add: overlap_session_def run_defs sample_file_def)
section \<open>Completion tracking: failing status queries\<close>

text \<open>
  C5. The interval is 3000 ms. When a status query of poller \<open>i\<close> itself fails (network
  error, response not ok, body that does not parse), the message becomes the transient
  text, job, processing flag and result stay as they are, and the poller holds a timeout
  of 3000 ms. This repeats for any number of failures in a row: after \<open>n\<close> of them, each
  followed by its timeout, the poller has issued \<open>n\<close> further queries and has one in
  flight. A response with status \<^verbatim>\<open>failed\<close> arriving then, with an error and a
  progress that can be rendered (neither is an object), ends the tracking with the
  response's error message (or the default text), the job cleared and the poller spent.
\<close>

theorem C5_transient_retry:
  assumes "i < length (pollers y)" and "pfetch (pollers y ! i)" and "mounted y"
    and "list_all query_failed outcomes" and "query_failed outcome"
    and "field data ''status'' = Str ''failed''"
    and "renderable (field data ''error'')" and "renderable (field data ''progress'')"
  shows "POLL_INTERVAL = 3000 \<and>
    (\<exists>y1. step y (PollSettled i outcome) = Some y1 \<and>
       message (ui y1) = Str ''Could not fetch job status. Trying again...'' \<and>
       jobId (ui y1) = jobId (ui y) \<and> isProcessing (ui y1) = isProcessing (ui y) \<and>
       resultUrl (ui y1) = resultUrl (ui y) \<and>
       \<not> pfetch (pollers y1 ! i) \<and> ptimer (pollers y1 ! i) = Some 3000 \<and>
       queries y1 = queries y) \<and>
    (\<exists>y'. exec y (retry_rounds i outcomes) = Some y' \<and>
       jobId (ui y') = jobId (ui y) \<and> isProcessing (ui y') = isProcessing (ui y) \<and>
       resultUrl (ui y') = resultUrl (ui y) \<and>
       pfetch (pollers y' ! i) \<and>
       queries y' = queries y @ replicate (length outcomes) (pjob (pollers y ! i)) \<and>
       (\<exists>y''. step y' (PollSettled i (Response True (Some data))) = Some y'' \<and>
          message (ui y'') =
            (if truthy (field data ''error'') then field data ''error''
             else Str ''Processing failed on server'') \<and>
          jobId (ui y'') = Null \<and> \<not> isProcessing (ui y'') \<and>
          queries y'' = queries y' \<and>
          \<not> pfetch (pollers y'' ! i) \<and> ptimer (pollers y'' ! i) = None))"
proof -
  have one: "\<exists>y1. step y (PollSettled i outcome) = Some y1 \<and>
       message (ui y1) = Str ''Could not fetch job status. Trying again...'' \<and>
       jobId (ui y1) = jobId (ui y) \<and> isProcessing (ui y1) = isProcessing (ui y) \<and>
       resultUrl (ui y1) = resultUrl (ui y) \<and>
       \<not> pfetch (pollers y1 ! i) \<and> ptimer (pollers y1 ! i) = Some 3000 \<and>
       queries y1 = queries y"
    using step_query_failed [OF assms(1,2,5)] assms(1,3)
    by (simp add: POLL_INTERVAL_def del: step.simps)
  obtain y' where y': "exec y (retry_rounds i outcomes) = Some y'"
      "mounted y'" "i < length (pollers y')" "pfetch (pollers y' ! i)"
      "jobId (ui y') = jobId (ui y)" "isProcessing (ui y') = isProcessing (ui y)"
      "resultUrl (ui y') = resultUrl (ui y)"
      "queries y' = queries y @ replicate (length outcomes) (pjob (pollers y ! i))"
    using rounds_query_failed [OF assms(1-4)] by blast
  have t: "field data ''status'' = Str ''done'' \<or> field data ''status'' = Str ''failed''"
    using assms(6) by simp
  obtain y'' where y'': "step y' (PollSettled i (Response True (Some data))) = Some y''"
      "queries y'' = queries y'" "dead y'' i"
    using step_terminal [OF y'(3,4) t] by blast
  have u: "ui y'' = fst (poll_resume (Response True (Some data)) (ui y'))"
    using step_terminal_ui [OF y'(3,4,2) t assms(8) _ y''(1)] assms(7) by simp
  have f: "message (ui y'') =
            (if truthy (field data ''error'') then field data ''error''
             else Str ''Processing failed on server'') \<and>
          jobId (ui y'') = Null \<and> \<not> isProcessing (ui y'')"
    using assms(6) poll_resume_terminal [OF t, of "ui y'"] by (auto simp: u js_or_def)
  have d: "\<not> pfetch (pollers y'' ! i) \<and> ptimer (pollers y'' ! i) = None"
    using y''(3) by (simp add: dead_def)
  show ?thesis
    using one y'(1,5,6,7,4,8) y''(1,2) f d by (auto simp: POLL_INTERVAL_def)
qed

theorem C5_transient_retry_witness:
  "\<exists>y' y''.
     exec polling_state
       (retry_rounds 0 [NetworkError, Response False (Some Null)]) = Some y' \<and>
     jobId (ui y') = Str ''abc123'' \<and> isProcessing (ui y') \<and>
     queries y' = [Str ''abc123'', Str ''abc123'', Str ''abc123''] \<and>
     step y' (PollSettled 0 (Response True (Some (Obj [(''status'', Str ''failed''),
                                                        (''error'', Str ''boom'')])))) = Some y'' \<and>
     message (ui y'') = Str ''boom'' \<and> jobId (ui y'') = Null \<and> \<not> isProcessing (ui y'') \<and>
     queries y'' = queries y'"
  using C5_transient_retry
          [of 0 polling_state "[NetworkError, Response False (Some Null)]" "Response True None"
              "Obj [(''status'', Str ''failed''), (''error'', Str ''boom'')]"]
  by (simp add: polling_state_def uploading_state_def run_defs)

section \<open>File intake: the size limit\<close>

text \<open>
  C6. The limit is 1 GiB. A first candidate file larger than the limit is rejected: the
  intake event leaves the whole system as it was, selected file, preview handle, object-URL
  calls, progress, job and result included, except that the message is set to the
  (non-empty) size complaint.
\<close>

theorem C6_oversize_rejected:
  assumes "MAX_FILE_SIZE_BYTES < fsize f" and "mounted y"
  shows "MAX_FILE_SIZE_BYTES = 2 ^ 30 \<and>
         step y (OnFiles (Some (f # fs))) =
           Some (y\<lparr>ui := (ui y)\<lparr>message :=
             Str ''File too large. Please upload a smaller file or use chunked/direct upload.''\<rparr>\<rparr>)"
  using assms by (simp add: onFiles_def render_same MAX_FILE_SIZE_BYTES_def)

theorem C6_oversize_rejected_witness:
  "MAX_FILE_SIZE_BYTES < fsize \<lparr>fname = ''big.mp4'', fsize = 1073741825, ftype = ''video/mp4''\<rparr> \<and>
   mounted init_sys \<and>
   step init_sys
     (OnFiles (Some [\<lparr>fname = ''big.mp4'', fsize = 1073741825, ftype = ''video/mp4''\<rparr>])) =
     Some (init_sys\<lparr>ui := initial\<lparr>message :=
             Str ''File too large. Please upload a smaller file or use chunked/direct upload.''\<rparr>\<rparr>)"
  using C6_oversize_rejected
          [of "\<lparr>fname = ''big.mp4'', fsize = 1073741825, ftype = ''video/mp4''\<rparr>" init_sys "[]"]
  by (simp add: MAX_FILE_SIZE_BYTES_def init_sys_def)

section \<open>Reset and pending status queries\<close>

text \<open>
  What \<^verbatim>\<open>clearAll\<close> does achieve: the nine state variables are back at their initial
  values, and a timeout pending in the poller of the current run of the polling effect is
  cancelled by the cleanup that the render brings.
\<close>

lemma clearAll_initial: "ui (clearAll y) = initial\<lparr>jobRef := jobRef (ui y)\<rparr>"
  by (simp add: clearAll_def initial_def)

lemma reset_cancels_current_timer:
  assumes "mounted y" and "cfile (ui y) \<noteq> None" and "cur y = Some i"
    and "i < length (pollers y)" and "truthy (jobId (ui y))"
  shows "\<exists>y'. step y ClickClear = Some y' \<and> ui y' = initial\<lparr>jobRef := jobRef (ui y)\<rparr> \<and>
           ptimer (pollers y' ! i) = None"
proof -
  have "jobId (ui y) \<noteq> Null" using assms(5) by auto
  then show ?thesis
    using assms(1-4)
    by (simp add: clearAll_initial render_def polling_effect_def preview_effect_def
        clearTimeout_cur_def clearAll_def initial_def)
qed

text \<open>
  C7. Reset does not cancel every pending scheduled status query. After a reset made
  while a status query was in flight, the answer to that query (here: still processing)
  schedules the next query on the poller whose cleanup has already run. A later reset
  returns the state variables to their initial values and leaves that timeout pending;
  when it fires, a status query for the abandoned job \<^verbatim>\<open>abc123\<close> is issued.
\<close>

theorem C7_reset_misses_stale_timer:
  "exec init_sys
     [OnFiles (Some [sample_file]),
      ClickUpscale,
      UploadLoad 200 (Some (Obj [(''jobId'', Str ''abc123'')])),
      ClickClear,
      PollSettled 0 (Response True (Some (Obj [(''status'', Str ''processing'')]))),
      OnFiles (Some [sample_file]),
      ClickClear] =
     Some (init_sys
       \<lparr> urllog := [Revoke 1, Revoke 1, Create 1, Revoke 0, Revoke 0, Create 0],
         sent := sent uploading_state,
         pollers := [\<lparr>pjob = Str ''abc123'', pfetch = False, ptimer = Some 3000\<rparr>],
         queries := [Str ''abc123''] \<rparr>) \<and>
   step (init_sys
       \<lparr> urllog := [Revoke 1, Revoke 1, Create 1, Revoke 0, Revoke 0, Create 0],
         sent := sent uploading_state,
         pollers := [\<lparr>pjob = Str ''abc123'', pfetch = False, ptimer = Some 3000\<rparr>],
         queries := [Str ''abc123''] \<rparr>)
     (TimerFired 0) =
     Some (init_sys
       \<lparr> urllog := [Revoke 1, Revoke 1, Create 1, Revoke 0, Revoke 0, Create 0],
         sent := sent uploading_state,
         pollers := [\<lparr>pjob = Str ''abc123'', pfetch = True, ptimer = None\<rparr>],
         queries := [Str ''abc123'', Str ''abc123''] \<rparr>)"
  by (simp add: run_defs uploading_state_def sample_file_def)

section \<open>Preview handles\<close>

text \<open>
  C8, as the code has it. In every reachable state, and at every earlier moment of its
  log of object-URL calls, at most one preview handle is live; a handle is created only
  when none is live, so the previous one has been released before. The live handle is the
  one in \<^verbatim>\<open>previewUrl\<close> while the component is mounted, and none after teardown.
  The number of handles released is the number created minus the one that may be live.
  The number of release calls is not that number: while mounted it is twice as large,
  because a replaced or cleared handle is revoked by the handler and again by the cleanup
  of the preview effect.
\<close>

theorem C8_preview_handles:
  assumes "exec init_sys es = Some y"
  shows "(\<forall>l. suffix l (urllog y) \<longrightarrow> card (live l) \<le> 1) \<and>
         (\<forall>h l. suffix (Create h # l) (urllog y) \<longrightarrow> live l = {}) \<and>
         live (urllog y) = (if mounted y then set_option (previewUrl (ui y)) else {}) \<and>
         card (released (urllog y)) + card (live (urllog y)) = creations (urllog y) \<and>
         (mounted y \<longrightarrow> releases (urllog y) = 2 * card (released (urllog y)))"
proof -
  have inv: "preview_inv y"
    using assms preview_inv_init by (rule preview_inv_exec)
  define p where "p = (if mounted y then previewUrl (ui y) else None)"
  have li: "log_inv (urllog y) p"
    using inv by (simp add: preview_inv_def p_def split: if_splits)
  then have wf: "wf_log (urllog y)" and lv: "live (urllog y) = set_option p"
    and dj: "released (urllog y) \<inter> live (urllog y) = {}"
    and un: "released (urllog y) \<union> live (urllog y) = {..<creations (urllog y)}"
    unfolding log_inv_def by blast+
  have a: "card (live l) \<le> 1" if "suffix l (urllog y)" for l
    using wf that by (intro wf_log_card_live) (rule wf_log_suffix)
  have b: "live l = {}" if "suffix (Create h # l) (urllog y)" for h l
    using wf_log_suffix [OF wf that] by simp
  have c: "live (urllog y) = (if mounted y then set_option (previewUrl (ui y)) else {})"
    using lv by (simp add: p_def)
  have "card (released (urllog y) \<union> live (urllog y)) =
        card (released (urllog y)) + card (live (urllog y))"
    using dj by (intro card_Un_disjoint) simp_all
  then have d: "card (released (urllog y)) + card (live (urllog y)) = creations (urllog y)"
    using un by simp
  have e: "releases (urllog y) = 2 * card (released (urllog y))" if "mounted y"
    using inv that by (simp add: preview_inv_def)
  show ?thesis using a b c d e by blast
qed

theorem C8_preview_handles_witness:
  "exec init_sys [OnFiles (Some [sample_file]), ClickClear,
                  OnFiles (Some [sample_file]), ClickClear] =
     Some (init_sys\<lparr>urllog := [Revoke 1, Revoke 1, Create 1, Revoke 0, Revoke 0, Create 0]\<rparr>) \<and>
   live [Revoke 1, Revoke 1, Create 1, Revoke 0, Revoke 0, Create 0] = {} \<and>
   released [Revoke 1, Revoke 1, Create 1, Revoke 0, Revoke 0, Create 0] = {0, 1} \<and>
   creations [Revoke 1, Revoke 1, Create 1, Revoke 0, Revoke 0, Create 0] = 2 \<and>
   releases [Revoke 1, Revoke 1, Create 1, Revoke 0, Revoke 0, Create 0] = 4"
  using C8_preview_handles
          [of "[OnFiles (Some [sample_file]), ClickClear,
                OnFiles (Some [sample_file]), ClickClear]"
              "init_sys\<lparr>urllog := [Revoke 1, Revoke 1, Create 1, Revoke 0, Revoke 0, Create 0]\<rparr>"]
  by (simp add: run_defs sample_file_def insert_commute)

text \<open>
  The claim as stated fails: one intake followed by a reset makes one creation and two
  release calls, with no handle left live.
\<close>

theorem C8_release_count_counterexample:
  "exec init_sys
     [OnFiles (Some [\<lparr>fname = ''a.png'', fsize = 10, ftype = ''image/png''\<rparr>]), ClickClear] =
     Some (init_sys\<lparr>urllog := [Revoke 0, Revoke 0, Create 0]\<rparr>) \<and>
   creations [Revoke 0, Revoke 0, Create 0] = 1 \<and>
   releases [Revoke 0, Revoke 0, Create 0] = 2 \<and>
   live [Revoke 0, Revoke 0, Create 0] = {}"
  by (simp add: run_defs)

section \<open>File intake: a file of exactly the limit\<close>

text \<open>
  C9. A first candidate file of exactly \<open>1024^3\<close> bytes is accepted: it becomes the
  selected file, its kind is derived from its content type, a fresh preview handle is made
  for it, and message, result and progress are cleared.
\<close>

theorem C9_exact_limit_accepted:
  assumes "fsize f = 1024 ^ 3" and "mounted y"
  shows "\<exists>y'. step y (OnFiles (Some (f # fs))) = Some y' \<and>
           cfile (ui y') = Some f \<and> fileType (ui y') = kind_of (ftype f) \<and>
           message (ui y') = Str [] \<and>
           previewUrl (ui y') = Some (creations (revoke_preview (previewUrl (ui y)) (urllog y))) \<and>
           resultUrl (ui y') = Null \<and> processingProgress (ui y') = Null \<and>
           uploadProgress (ui y') = Fin 0"
  using assms by (simp add: onFiles_def MAX_FILE_SIZE_BYTES_def Let_def)

theorem C9_exact_limit_accepted_witness:
  "\<exists>y'. step init_sys
           (OnFiles (Some [\<lparr>fname = ''clip.mp4'', fsize = 1073741824, ftype = ''video/mp4''\<rparr>])) =
           Some y' \<and>
     cfile (ui y') = Some \<lparr>fname = ''clip.mp4'', fsize = 1073741824, ftype = ''video/mp4''\<rparr> \<and>
     fileType (ui y') = Some Video \<and> previewUrl (ui y') = Some 0"
  using C9_exact_limit_accepted
          [of "\<lparr>fname = ''clip.mp4'', fsize = 1073741824, ftype = ''video/mp4''\<rparr>" init_sys "[]"]
  by (simp add: init_sys_def initial_def revoke_preview_def kind_of_def)

section \<open>Transfer: a success status with an unreadable body\<close>

text \<open>
  C10. When the upload ends with a status from 200 to 299 and a body that is not valid
  JSON, \<^verbatim>\<open>uploadFile\<close> resolves with the empty object instead of rejecting, and
  \<^verbatim>\<open>startUpscale\<close> takes its last branch: the message is the unexpected-response
  text, not an upload-failure text, and the processing flag is cleared; nothing else of
  the state changes.
\<close>

theorem C10_invalid_json_is_unexpected_response:
  assumes "200 \<le> status" and "status < 300" and "0 < uploads y" and "mounted y"
  shows "xhr_onload status None = Inr (Obj []) \<and>
         (\<exists>y'. step y (UploadLoad status None) = Some y' \<and>
            ui y' = (ui y)\<lparr>message := Str ''Unexpected server response. Check backend logs.'',
                            isProcessing := False\<rparr> \<and>
            (\<forall>m. message (ui y') \<noteq> Str (''Upload failed: '' @ m)))"
proof -
  let ?s = "(ui y)\<lparr>message := Str ''Unexpected server response. Check backend logs.'',
                     isProcessing := False\<rparr>"
  have x: "xhr_onload status None = Inr (Obj [])"
    using assms(1,2) by (simp add: xhr_onload_def)
  have r: "startUpscale_resume (Inr (Obj [])) (ui y) = ?s"
    by (simp add: startUpscale_resume_def)
  have "renders ?s \<or> \<not> renders (ui y)"
    by (rule renders_keep) simp_all
  then have "ui (set_state ?s (y\<lparr>uploads := uploads y - 1\<rparr>)) = ?s"
    using assms(4) by (intro ui_set_state) simp_all
  then show ?thesis
    using assms(3) by (simp add: x r)
qed

theorem C10_invalid_json_is_unexpected_response_witness:
  "xhr_onload 204 None = Inr (Obj []) \<and>
   (\<exists>y'. step uploading_state (UploadLoad 204 None) = Some y' \<and>
      message (ui y') = Str ''Unexpected server response. Check backend logs.'' \<and>
      \<not> isProcessing (ui y') \<and> cfile (ui y') = Some sample_file)"
  using C10_invalid_json_is_unexpected_response [of 204 uploading_state]
  by (simp add: uploading_state_def run_defs)

end
